theory Spec2Isabelle
  imports Main "HOL-Library.Char_ord" "HOL-Library.List_Lexorder"
begin

section \<open>The site generator \<^verbatim>\<open>generate.py\<close>\<close>

text \<open>
  A shallow embedding of the functions of \<^verbatim>\<open>src/generate.py\<close>: the record loader
  \<^verbatim>\<open>read_json_files\<close>, the two enrichers \<^verbatim>\<open>update_devto_posts\<close> and
  \<^verbatim>\<open>update_github_data\<close>, the project validator \<^verbatim>\<open>check_projects\<close> with its
  classifier \<^verbatim>\<open>check_project\<close>, the post aggregator \<^verbatim>\<open>collect_posts\<close> and the two
  text substitutions that \<^verbatim>\<open>generate_html\<close> applies to the README.

  Python strings are modelled as \<open>string\<close> (lists of 8-bit characters, read as the code
  points 0 to 255). Exceptions and \<^verbatim>\<open>exit\<close> are values of the type \<open>error\<close>; a
  function that can raise returns \<open>error + 'a\<close>.
\<close>

subsection \<open>Errors\<close>

datatype error =
    KeyError string          \<comment> \<open>\<^verbatim>\<open>d[k]\<close> on a dict without the key \<open>k\<close>\<close>
  | JsonError string         \<comment> \<open>\<^verbatim>\<open>raise JsonError(msg)\<close>\<close>
  | Exception string         \<comment> \<open>\<^verbatim>\<open>raise Exception(msg)\<close>\<close>
  | SystemExit string        \<comment> \<open>\<^verbatim>\<open>exit(msg)\<close>: the process ends and prints \<open>msg\<close>\<close>

subsection \<open>The regular expressions of the program\<close>

text \<open>
  The patterns of \<^verbatim>\<open>check_project\<close> and \<^verbatim>\<open>generate_html\<close> use six constructs of
  Python's \<^verbatim>\<open>re\<close>: \<^verbatim>\<open>^\<close> (start of the subject), \<^verbatim>\<open>$\<close> (end of the subject, or
  just before a newline that ends it), \<^verbatim>\<open>.\<close> (any character but a newline), the
  group \<^verbatim>\<open>([^/]+)\<close> (one or more characters other than a slash, greedy), the group
  \<^verbatim>\<open>(.*?)\<close> (any characters but newlines, as few as possible) and literal characters.
  \<open>compile\<close> reads a pattern string into a list of such items.
\<close>

datatype item = Bos | Eos | Dot | Grp | Lazy | Chr char

fun compile :: "string \<Rightarrow> item list" where
  "compile [] = []"
| "compile (c # cs) =
     (if c = CHR ''^'' then Bos # compile cs
      else if c = CHR ''$'' then Eos # compile cs
      else if c = CHR ''.'' then Dot # compile cs
      else if take 7 (c # cs) = ''([^/]+)'' then Grp # compile (drop 6 cs)
      else if take 5 (c # cs) = ''(.*?)'' then Lazy # compile (drop 4 cs)
      else Chr c # compile cs)"

definition newline :: char where
  "newline = CHR 0x0A"

fun first_some :: "'a option list \<Rightarrow> 'a option" where
  "first_some [] = None"
| "first_some (None # xs) = first_some xs"
| "first_some (Some x # xs) = Some x"

text \<open>
  \<open>matches ps pos s\<close> matches the items \<open>ps\<close> against \<open>s\<close>, the rest of the subject
  from offset \<open>pos\<close> on. It returns the captured groups of the first match in
  backtracking order, and what is left of the subject after the match. A greedy group
  tries its longest extent first and gives characters back one at a time; a lazy group
  tries the empty extent first and takes characters one at a time. Once the pattern is
  used up the match succeeds.
\<close>

fun with_group :: "string \<Rightarrow> (string list \<times> string) option \<Rightarrow> (string list \<times> string) option" where
  "with_group g None = None"
| "with_group g (Some (gs, rest)) = Some (g # gs, rest)"

fun matches :: "item list \<Rightarrow> nat \<Rightarrow> string \<Rightarrow> (string list \<times> string) option" where
  "matches [] pos s = Some ([], s)"
| "matches (Bos # ps) pos s = (if pos = 0 then matches ps pos s else None)"
| "matches (Eos # ps) pos s = (if s = [] \<or> s = [newline] then matches ps pos s else None)"
| "matches (Dot # ps) pos s =
     (case s of [] \<Rightarrow> None
      | x # xs \<Rightarrow> if x = newline then None else matches ps (Suc pos) xs)"
| "matches (Chr c # ps) pos s =
     (case s of [] \<Rightarrow> None
      | x # xs \<Rightarrow> if x = c then matches ps (Suc pos) xs else None)"
| "matches (Grp # ps) pos s =
     first_some
       (map (\<lambda>k. with_group (take k s) (matches ps (pos + k) (drop k s)))
         (rev [1 ..< Suc (length (takeWhile (\<lambda>x. x \<noteq> CHR ''/'') s))]))"
| "matches (Lazy # ps) pos s =
     first_some
       (map (\<lambda>k. with_group (take k s) (matches ps (pos + k) (drop k s)))
         [0 ..< Suc (length (takeWhile (\<lambda>x. x \<noteq> newline) s))])"

text \<open>
  \<^verbatim>\<open>re.search(pattern, s)\<close> tries every start offset from the left and returns the
  first match (\<open>None\<close> when there is none); \<open>group m n\<close> is \<^verbatim>\<open>m.group(n)\<close> for
  \<open>n \<ge> 1\<close>.
\<close>

definition re_search :: "string \<Rightarrow> string \<Rightarrow> string list option" where
  "re_search pattern s =
     map_option fst
       (first_some (map (\<lambda>i. matches (compile pattern) i (drop i s)) [0 ..< Suc (length s)]))"

definition group :: "string list \<Rightarrow> nat \<Rightarrow> string" where
  "group m n = m ! (n - 1)"

text \<open>
  \<^verbatim>\<open>re.sub(pattern, repl, s)\<close> for a replacement without back-references: scanning
  from the left, every match is replaced by \<open>repl\<close> and the scan goes on after it; where
  nothing matches, one character is copied. After an empty match one character is copied
  too.
\<close>

function sub_from :: "item list \<Rightarrow> string \<Rightarrow> nat \<Rightarrow> string \<Rightarrow> string" where
  "sub_from ps repl pos s =
     (case matches ps pos s of
        Some (gs, rest) \<Rightarrow>
          if length rest < length s
          then repl @ sub_from ps repl (pos + (length s - length rest)) rest
          else repl @ (case s of [] \<Rightarrow> [] | c # cs \<Rightarrow> c # sub_from ps repl (Suc pos) cs)
      | None \<Rightarrow> (case s of [] \<Rightarrow> [] | c # cs \<Rightarrow> c # sub_from ps repl (Suc pos) cs))"
  by pat_completeness auto
termination
  by (relation "measure (\<lambda>(ps, repl, pos, s). length s)") auto

declare sub_from.simps [simp del]

definition re_sub :: "string \<Rightarrow> string \<Rightarrow> string \<Rightarrow> string" where
  "re_sub pattern repl s = sub_from (compile pattern) repl 0 s"

subsection \<open>\<^verbatim>\<open>check_project\<close>\<close>

text \<open>
  The result is the pair \<^verbatim>\<open>(url_type, name)\<close>; Python's \<^verbatim>\<open>None\<close> is \<open>None\<close>.
\<close>

definition check_project :: "string \<Rightarrow> string option \<times> string option" where
  "check_project url =
     (case re_search ''^https://github.com/([^/]+)/([^/]+)$'' url of
        Some m \<Rightarrow> (Some ''github_repo'', Some (group m 2))
      | None \<Rightarrow>
     (case re_search ''^https://foss.heptapod.net/([^/]+)/([^/]+)$'' url of
        Some m \<Rightarrow> (Some ''heptapod_repo'', Some (group m 2))
      | None \<Rightarrow>
     (case re_search ''^https://github.com/([^/]+)$'' url of
        Some m \<Rightarrow> (Some ''github_organization'', Some (group m 1))
      | None \<Rightarrow> (None, None))))"

subsection \<open>Records, posts and enrichment blobs\<close>

text \<open>
  An enrichment blob (what \<^verbatim>\<open>forem.fetch\<close> and \<^verbatim>\<open>github.get_user_info\<close> return and
  what the cache files hold) is a JSON object or \<^verbatim>\<open>null\<close>; of its fields the program
  reads only \<^verbatim>\<open>published_at\<close>, a string, so the model keeps the string-valued fields.
  \<open>truthy\<close> is Python's truth value: \<^verbatim>\<open>None\<close> and the empty dict are false.
\<close>

datatype blob = Null | Obj "(string \<times> string) list"

fun blob_fields :: "blob \<Rightarrow> (string \<times> string) list" where
  "blob_fields Null = []"
| "blob_fields (Obj kvs) = kvs"

definition truthy :: "blob \<Rightarrow> bool" where
  "truthy b \<longleftrightarrow> blob_fields b \<noteq> []"

text \<open>
  A post descriptor is a dict with the keys \<^verbatim>\<open>url\<close>, \<^verbatim>\<open>title\<close> and
  \<^verbatim>\<open>published_at\<close> (strings, required of every descriptor) and, once
  \<^verbatim>\<open>update_devto_posts\<close> has run, \<^verbatim>\<open>details\<close>. A key that may be missing is an
  \<open>option\<close> field.
\<close>

record post =
  url :: string
  title :: string
  published_at :: string
  details :: "blob option"

text \<open>
  A person record is the dict read from one JSON file. Each of the keys that the program
  reads may be missing from a file: \<^verbatim>\<open>person[k]\<close> on a record without the key \<open>k\<close>
  raises \<open>KeyError\<close>, and \<^verbatim>\<open>k in person\<close> tests for it. \<^verbatim>\<open>check_projects\<close>
  replaces the list of URL strings under \<^verbatim>\<open>projects\<close> by a list of project entries,
  so the type of the list's elements is a parameter: \<open>string person\<close> before,
  \<open>project person\<close> after.
\<close>

record 'p person =
  name :: "string option"
  github :: "string option"
  posts :: "post list option"
  projects :: "'p list option"
  gh :: "blob option"

record project =
  project_url :: string
  project_name :: "string option"

subsection \<open>The caches and the external calls\<close>

text \<open>
  A cache is the dict that \<^verbatim>\<open>load_cache\<close> returns and \<^verbatim>\<open>save_cache\<close> writes. The
  external calls \<^verbatim>\<open>forem.fetch\<close> and \<^verbatim>\<open>github.get_user_info\<close> are parameters of the
  model (functions from the key to the blob returned), and every call and every
  \<^verbatim>\<open>time.sleep(0.2)\<close> is recorded in a trace, in the order of execution. A call
  that raises (a network failure) ends the run; the model describes the runs in which
  every call returns.
\<close>

type_synonym cache = "string \<rightharpoonup> blob"

datatype event = Fetch string | GetUserInfo string | Sleep

subsection \<open>\<^verbatim>\<open>update_devto_posts\<close>\<close>

definition devto_page ::
    "(string \<Rightarrow> blob) \<Rightarrow> cache \<times> event list \<Rightarrow> post \<Rightarrow> post \<times> cache \<times> event list" where
  "devto_page fetch st page =
     (case st of (cache, tr) \<Rightarrow>
       (case cache (url page) of
          None \<Rightarrow>
            (let v = fetch (url page)
             in (page\<lparr>details := Some v\<rparr>, cache(url page \<mapsto> v), tr @ [Fetch (url page), Sleep]))
        | Some v \<Rightarrow> (page\<lparr>details := Some v\<rparr>, cache, tr)))"

fun devto_pages ::
    "(string \<Rightarrow> blob) \<Rightarrow> cache \<times> event list \<Rightarrow> post list \<Rightarrow> post list \<times> cache \<times> event list" where
  "devto_pages fetch st [] = ([], st)"
| "devto_pages fetch st (page # pages) =
     (case devto_page fetch st page of (page', st') \<Rightarrow>
       (case devto_pages fetch st' pages of (pages', st'') \<Rightarrow> (page' # pages', st'')))"

fun devto_people ::
    "(string \<Rightarrow> blob) \<Rightarrow> cache \<times> event list \<Rightarrow> 'p person list
      \<Rightarrow> 'p person list \<times> cache \<times> event list" where
  "devto_people fetch st [] = ([], st)"
| "devto_people fetch st (person # people) =
     (case posts person of
        None \<Rightarrow>
          (case devto_people fetch st people of (people', st') \<Rightarrow> (person # people', st'))
      | Some pages \<Rightarrow>
          (case devto_pages fetch st pages of (pages', st') \<Rightarrow>
            (case devto_people fetch st' people of (people', st'') \<Rightarrow>
              (person\<lparr>posts := Some pages'\<rparr> # people', st''))))"

text \<open>
  \<open>update_devto_posts fetch cache people\<close>: \<open>cache\<close> is what \<^verbatim>\<open>load_cache('forem')\<close>
  returns; the result is the list of records as the loop leaves them, the cache that
  \<^verbatim>\<open>save_cache\<close> writes, and the trace.
\<close>

definition update_devto_posts ::
    "(string \<Rightarrow> blob) \<Rightarrow> cache \<Rightarrow> 'p person list \<Rightarrow> 'p person list \<times> cache \<times> event list" where
  "update_devto_posts fetch cache people = devto_people fetch (cache, []) people"

subsection \<open>\<^verbatim>\<open>update_github_data\<close>\<close>

definition github_person ::
    "(string \<Rightarrow> blob) \<Rightarrow> cache \<times> event list \<Rightarrow> 'p person
      \<Rightarrow> error + 'p person \<times> cache \<times> event list" where
  "github_person get_user_info st person =
     (case st of (cache, tr) \<Rightarrow>
       (case github person of
          None \<Rightarrow> Inl (KeyError ''github'')
        | Some github_id \<Rightarrow>
            (case cache github_id of
               None \<Rightarrow>
                 (let github_data = get_user_info github_id
                  in if \<not> truthy github_data
                     then Inr (person, cache, tr @ [GetUserInfo github_id])
                     else Inr (person\<lparr>gh := Some github_data\<rparr>,
                               cache(github_id \<mapsto> github_data),
                               tr @ [GetUserInfo github_id, Sleep]))
             | Some v \<Rightarrow> Inr (person\<lparr>gh := Some v\<rparr>, cache, tr))))"

fun github_people ::
    "(string \<Rightarrow> blob) \<Rightarrow> cache \<times> event list \<Rightarrow> 'p person list
      \<Rightarrow> error + 'p person list \<times> cache \<times> event list" where
  "github_people get_user_info st [] = Inr ([], st)"
| "github_people get_user_info st (person # people) =
     (case github_person get_user_info st person of
        Inl e \<Rightarrow> Inl e
      | Inr (person', st') \<Rightarrow>
          (case github_people get_user_info st' people of
             Inl e \<Rightarrow> Inl e
           | Inr (people', st'') \<Rightarrow> Inr (person' # people', st'')))"

definition update_github_data ::
    "(string \<Rightarrow> blob) \<Rightarrow> cache \<Rightarrow> 'p person list
      \<Rightarrow> error + 'p person list \<times> cache \<times> event list" where
  "update_github_data get_user_info cache people = github_people get_user_info (cache, []) people"

subsection \<open>\<^verbatim>\<open>check_projects\<close>\<close>

definition quote :: char where
  "quote = CHR 0x27"

text \<open>
  The f-string of the error message reads \<^verbatim>\<open>person['name']\<close> and then
  \<^verbatim>\<open>person['github']\<close>; a missing key raises before \<^verbatim>\<open>exit\<close> is reached.
\<close>

definition invalid_project :: "string \<Rightarrow> 'p person \<Rightarrow> error" where
  "invalid_project u person =
     (case name person of
        None \<Rightarrow> KeyError ''name''
      | Some n \<Rightarrow>
          (case github person of
             None \<Rightarrow> KeyError ''github''
           | Some g \<Rightarrow>
               SystemExit (''Invalid project '' @ [quote] @ u @ [quote] @ '' by '' @ n
                            @ '' github='' @ [quote] @ g @ [quote])))"

text \<open>\<^verbatim>\<open>not url_type\<close> holds for \<^verbatim>\<open>None\<close> and for the empty string.\<close>

fun falsy :: "string option \<Rightarrow> bool" where
  "falsy None = True"
| "falsy (Some t) = (t = [])"

text \<open>The inner loop: \<open>acc\<close> is the list \<^verbatim>\<open>projects\<close> built so far.\<close>

fun check_urls :: "'p person \<Rightarrow> project list \<Rightarrow> string list \<Rightarrow> error + project list" where
  "check_urls person acc [] = Inr acc"
| "check_urls person acc (u # us) =
     (case check_project u of (url_type, nm) \<Rightarrow>
       if falsy url_type then Inl (invalid_project u person)
       else check_urls person (acc @ [\<lparr>project_url = u, project_name = nm\<rparr>]) us)"

definition checked :: "string person \<Rightarrow> project list option \<Rightarrow> project person" where
  "checked person ps =
     \<lparr>name = name person, github = github person, posts = posts person,
      projects = ps, gh = gh person\<rparr>"

text \<open>
  The outer loop: \<open>seen\<close> holds the records already passed (with their new
  \<^verbatim>\<open>projects\<close>), \<open>all_projects\<close> the accumulator that is returned.
\<close>

fun check_people ::
    "project person list \<Rightarrow> project list \<Rightarrow> string person list
      \<Rightarrow> error + project person list \<times> project list" where
  "check_people seen all_projects [] = Inr (seen, all_projects)"
| "check_people seen all_projects (person # people) =
     (case projects person of
        None \<Rightarrow> check_people (seen @ [checked person None]) all_projects people
      | Some us \<Rightarrow>
          (case check_urls person [] us of
             Inl e \<Rightarrow> Inl e
           | Inr ps \<Rightarrow>
               check_people (seen @ [checked person (Some ps)]) (all_projects @ ps) people))"

definition check_projects ::
    "string person list \<Rightarrow> error + project person list \<times> project list" where
  "check_projects people = check_people [] [] people"

subsection \<open>\<^verbatim>\<open>read_json_files\<close>\<close>

text \<open>
  \<^verbatim>\<open>str.lower\<close> on the code points 0 to 255: the letters A to Z and the Latin-1
  capitals (192 to 222 but the multiplication sign 215) move up by 32.
\<close>

definition lower_char :: "char \<Rightarrow> char" where
  "lower_char c =
     (let n = (of_char c :: nat)
      in if (65 \<le> n \<and> n \<le> 90) \<or> (192 \<le> n \<and> n \<le> 222 \<and> n \<noteq> 215)
         then char_of (n + 32) else c)"

definition lower :: "string \<Rightarrow> string" where
  "lower s = map lower_char s"

definition endswith :: "string \<Rightarrow> string \<Rightarrow> bool" where
  "endswith s suffix \<longleftrightarrow> take (length suffix) (rev s) = rev suffix"

text \<open>\<^verbatim>\<open>filename[:-5]\<close>\<close>

definition stem :: "string \<Rightarrow> string" where
  "stem filename = take (length filename - 5) filename"

text \<open>
  The directory is its listing (\<^verbatim>\<open>os.listdir\<close>, in the order the system gives) and
  \<open>load\<close>, the object that \<^verbatim>\<open>json.load\<close> reads from the file of a name (the model
  describes the directories whose files hold JSON objects). \<open>people\<close> is the list built
  so far.
\<close>

fun read_files ::
    "(string \<Rightarrow> 'p person) \<Rightarrow> 'p person list \<Rightarrow> string list \<Rightarrow> error + 'p person list" where
  "read_files load people [] = Inr people"
| "read_files load people (filename # rest) =
     (if filename = ''.gitkeep'' then read_files load people rest
      else if \<not> endswith filename ''.json''
        then Inl (JsonError ''file does not end with .json'')
      else if filename \<noteq> lower filename
        then Inl (Exception (''filename '' @ filename @ '' should be all lower-case''))
      else
        (let person = load filename
         in case github person of
              None \<Rightarrow> Inl (Exception (''github field is missing from '' @ filename))
            | Some g \<Rightarrow>
                if lower g \<noteq> stem filename
                then Inl (Exception (''value of github fields '' @ [quote] @ g @ [quote]
                       @ '' is not the same as the filename '' @ [quote] @ filename @ [quote]))
                else read_files load (people @ [person]) rest))"

definition read_json_files :: "string list \<Rightarrow> (string \<Rightarrow> 'p person) \<Rightarrow> error + 'p person list" where
  "read_json_files listing load = read_files load [] listing"

subsection \<open>\<^verbatim>\<open>collect_posts\<close>\<close>

text \<open>
  An element of the list that \<^verbatim>\<open>collect_posts\<close> returns is a dict with the key
  \<^verbatim>\<open>author\<close>, which refers to the owning record, and string-valued keys: those of the
  post's details, or the four of the fallback dict.

  In Python the dict appended for a post with details is the details object itself, which
  the post shares with the cache and with every other post of the same URL, so a later
  assignment to \<^verbatim>\<open>author\<close> shows in all of them. The model gives each article its own
  \<open>author\<close>; none of the properties below speaks of it.
\<close>

record 'p article =
  entries :: "(string \<times> string) list"
  author :: "'p person"

definition emit :: "'p person \<Rightarrow> post \<Rightarrow> error + 'p article" where
  "emit person p =
     (case details p of
        None \<Rightarrow> Inl (KeyError ''details'')
      | Some d \<Rightarrow>
          if truthy d then Inr \<lparr>entries = blob_fields d, author = person\<rparr>
          else Inr \<lparr>entries = [(''url'', url p), (''title'', title p), (''description'', []),
                              (''published_at'', published_at p)],
                    author = person\<rparr>)"

fun collect_person :: "'p person \<Rightarrow> 'p article list \<Rightarrow> post list \<Rightarrow> error + 'p article list" where
  "collect_person person acc [] = Inr acc"
| "collect_person person acc (p # ps) =
     (case emit person p of
        Inl e \<Rightarrow> Inl e
      | Inr a \<Rightarrow> collect_person person (acc @ [a]) ps)"

fun collect_people :: "'p article list \<Rightarrow> 'p person list \<Rightarrow> error + 'p article list" where
  "collect_people acc [] = Inr acc"
| "collect_people acc (person # people) =
     (case posts person of
        None \<Rightarrow> collect_people acc people
      | Some ps \<Rightarrow>
          (case collect_person person acc ps of
             Inl e \<Rightarrow> Inl e
           | Inr acc' \<Rightarrow> collect_people acc' people))"

text \<open>The sort key \<^verbatim>\<open>post['published_at']\<close>.\<close>

definition sort_key_of :: "'p article \<Rightarrow> string option" where
  "sort_key_of a = map_of (entries a) ''published_at''"

text \<open>
  \<^verbatim>\<open>list.sort(key=f, reverse=True)\<close>: Python reverses the list, sorts it stably in
  ascending order of the keys, and reverses the result. Strings compare by code point,
  a proper prefix first, which is the lexicographic order of \<open>string\<close>.
\<close>

definition sort_reverse :: "('a \<Rightarrow> string) \<Rightarrow> 'a list \<Rightarrow> 'a list" where
  "sort_reverse f xs = rev (sort_key f (rev xs))"

definition collect_posts :: "'p person list \<Rightarrow> error + 'p article list" where
  "collect_posts people =
     (case collect_people [] people of
        Inl e \<Rightarrow> Inl e
      | Inr ps \<Rightarrow>
          if list_all (\<lambda>a. sort_key_of a \<noteq> None) ps
          then Inr (sort_reverse (\<lambda>a. the (sort_key_of a)) ps)
          else Inl (KeyError ''published_at''))"

subsection \<open>The README transform of \<^verbatim>\<open>generate_html\<close>\<close>

text \<open>
  \<open>html\<close> is what \<^verbatim>\<open>markdown.markdown(text, extensions=['tables'])\<close> returns, a
  call to the Markdown library that the model takes as given. The two substitutions
  follow, one definition for each line of the source.
\<close>

definition strip_h1 :: "string \<Rightarrow> string" where
  "strip_h1 content = re_sub ''<h1>(.*?)</h1>'' [] content"

definition h2_title :: string where
  "h2_title = ''<h2 class='' @ [CHR 0x22] @ ''title'' @ [CHR 0x22] @ ''>''"

definition tag_h2 :: "string \<Rightarrow> string" where
  "tag_h2 content = re_sub ''<h2>'' h2_title content"

definition readme_content :: "string \<Rightarrow> string" where
  "readme_content html = tag_h2 (strip_h1 html)"

subsection \<open>Notions used to state the properties\<close>

text \<open>A path segment: not empty, and without a slash.\<close>

definition seg :: "string \<Rightarrow> bool" where
  "seg s \<longleftrightarrow> s \<noteq> [] \<and> CHR ''/'' \<notin> set s"

text \<open>The longest prefix without a slash.\<close>

abbreviation run :: "string \<Rightarrow> string" where
  "run s \<equiv> takeWhile (\<lambda>x. x \<noteq> CHR ''/'') s"

text \<open>The shapes as the specification writes them, with the host names read literally.\<close>

definition literal_shape :: "string \<Rightarrow> bool" where
  "literal_shape u \<longleftrightarrow>
     (\<exists>owner repo. seg owner \<and> seg repo \<and> u = ''https://github.com/'' @ owner @ ''/'' @ repo)
   \<or> (\<exists>owner repo. seg owner \<and> seg repo \<and> u = ''https://foss.heptapod.net/'' @ owner @ ''/'' @ repo)
   \<or> (\<exists>owner. seg owner \<and> u = ''https://github.com/'' @ owner)"

text \<open>
  A URL that \<^verbatim>\<open>check_projects\<close> lets pass, the entry it appends for it, and a record
  all of whose project URLs pass.
\<close>

definition passes :: "string \<Rightarrow> bool" where
  "passes u \<longleftrightarrow> \<not> falsy (fst (check_project u))"

definition project_of :: "string \<Rightarrow> project" where
  "project_of u = \<lparr>project_url = u, project_name = snd (check_project u)\<rparr>"

definition all_pass :: "string person \<Rightarrow> bool" where
  "all_pass person \<longleftrightarrow> list_all passes (case projects person of None \<Rightarrow> [] | Some us \<Rightarrow> us)"

text \<open>
  The trace of a run of \<^verbatim>\<open>update_devto_posts\<close> that fetches the URLs \<open>us\<close> in this
  order, and of a run of \<^verbatim>\<open>update_github_data\<close> that looks the identifiers \<open>us\<close> up:
  a pause follows each fetch, and each lookup that finds a profile.
\<close>

definition fetches :: "string list \<Rightarrow> event list" where
  "fetches us = concat (map (\<lambda>u. [Fetch u, Sleep]) us)"

definition lookups :: "(string \<Rightarrow> blob) \<Rightarrow> string list \<Rightarrow> event list" where
  "lookups get_user_info us =
     concat (map (\<lambda>u. GetUserInfo u # (if truthy (get_user_info u) then [Sleep] else [])) us)"

text \<open>The URLs of the posts of each record, and the details attached to them.\<close>

definition post_urls :: "'p person \<Rightarrow> string list option" where
  "post_urls person = map_option (map url) (posts person)"

definition post_details :: "'p person \<Rightarrow> blob option list option" where
  "post_details person = map_option (map details) (posts person)"

text \<open>
  What the loops of \<^verbatim>\<open>collect_posts\<close> emit, in the order of the input: for each
  record with a post list, for each of its posts, the dict appended or the error raised.
\<close>

definition emissions :: "'p person list \<Rightarrow> (error + 'p article) list" where
  "emissions people =
     concat (map (\<lambda>person. case posts person of None \<Rightarrow> []
                             | Some ps \<Rightarrow> map (emit person) ps) people)"

text \<open>
  A directory entry that \<^verbatim>\<open>read_json_files\<close> passes: the placeholder, or a file with
  the extension, a lower-case name and a matching identifier.
\<close>

definition accepted :: "(string \<Rightarrow> 'p person) \<Rightarrow> string \<Rightarrow> bool" where
  "accepted load f \<longleftrightarrow>
     f = ''.gitkeep'' \<or>
     (endswith f ''.json'' \<and> lower f = f \<and> (\<exists>g. github (load f) = Some g \<and> lower g = stem f))"

text \<open>\<open>occurs needle s\<close>: the string \<open>needle\<close> stands at some offset of \<open>s\<close>.\<close>

definition occurs :: "string \<Rightarrow> string \<Rightarrow> bool" where
  "occurs needle s \<longleftrightarrow>
     list_ex (\<lambda>k. take (length needle) (drop k s) = needle) [0 ..< Suc (length s)]"

text \<open>The items of the pattern \<^verbatim>\<open><h1>(.*?)</h1>\<close>.\<close>

abbreviation h1_pattern :: "item list" where
  "h1_pattern \<equiv> map Chr ''<h1>'' @ Lazy # map Chr ''</h1>''"

section \<open>The project classifier\<close>

subsection \<open>Matching: helper lemmas\<close>

lemma first_some_map_None:
  "(\<And>k. k \<in> set ks \<Longrightarrow> f k = None) \<Longrightarrow> first_some (map f ks) = None"
  by (induction ks) auto

lemma first_some_Cons_None: "first_some xs = None \<Longrightarrow> first_some (x # xs) = x"
  by (cases x) simp_all

lemma search_anchored:
  assumes "compile p = Bos # ps"
  shows "re_search p s = map_option fst (matches ps 0 s)"
proof -
  have "[0 ..< Suc (length s)] = 0 # [1 ..< Suc (length s)]"
    by (simp add: upt_rec)
  moreover have
    "first_some (map (\<lambda>i. matches (compile p) i (drop i s)) [1 ..< Suc (length s)]) = None"
    by (rule first_some_map_None) (auto simp add: assms)
  ultimately show ?thesis
    by (cases "matches ps 0 s") (simp_all add: re_search_def assms)
qed

lemma run_no_slash: "CHR ''/'' \<notin> set r \<Longrightarrow> run r = r"
  by (induction r) auto

lemma run_before_slash: "CHR ''/'' \<notin> set r \<Longrightarrow> run (r @ CHR ''/'' # t) = r"
  by (induction r) auto

lemma candidates: "0 < n \<Longrightarrow> rev [Suc 0 ..< Suc n] = n # rev [Suc 0 ..< n]"
  by simp

lemma Grp_none:
  assumes "\<And>k. k \<le> length (run s) \<Longrightarrow> matches ps (pos + k) (drop k s) = None"
  shows "matches (Grp # ps) pos s = None"
  unfolding matches.simps by (rule first_some_map_None) (auto simp: assms)

lemma Grp_first:
  assumes "run s \<noteq> []"
    and "matches ps (pos + length (run s)) (drop (length (run s)) s) = Some (g, rest)"
  shows "matches (Grp # ps) pos s = Some (take (length (run s)) s # g, rest)"
proof -
  have "0 < length (run s)" using assms(1) by simp
  then show ?thesis
    by (simp add: candidates assms(2) del: upt_Suc)
qed

lemma Grp_longest:
  assumes "run s \<noteq> []"
    and "\<And>k. k < length (run s) \<Longrightarrow> matches ps (pos + k) (drop k s) = None"
  shows "matches (Grp # ps) pos s =
         with_group (take (length (run s)) s)
           (matches ps (pos + length (run s)) (drop (length (run s)) s))"
proof -
  have "0 < length (run s)" using assms(1) by simp
  moreover have
    "first_some (map (\<lambda>k. with_group (take k s) (matches ps (pos + k) (drop k s)))
      (rev [Suc 0 ..< length (run s)])) = None"
    by (rule first_some_map_None) (simp add: assms(2))
  ultimately show ?thesis
    by (simp add: candidates first_some_Cons_None del: upt_Suc)
qed

lemma matches_Eos_slash: "CHR ''/'' \<in> set x \<Longrightarrow> matches [Eos] p x = None"
  by (auto simp: newline_def)

lemma matches_Chr_other:
  assumes "x = a # as" "a \<noteq> c"
  shows "matches (Chr c # ps) p x = None"
  using assms by simp

lemma matches_Grp_Eos_seg:
  assumes "seg s"
  shows "matches [Grp, Eos] pos s = Some ([s], [])"
proof -
  have r: "run s = s" "s \<noteq> []" using assms by (simp_all add: seg_def run_no_slash)
  have "matches [Grp, Eos] pos s = Some (take (length (run s)) s # [], [])"
    by (rule Grp_first) (simp_all add: r)
  then show ?thesis by (simp add: r)
qed

lemma matches_Grp_Eos_empty: "matches [Grp, Eos] pos [] = None"
  by simp

lemma matches_Grp_Eos_slash:
  assumes "CHR ''/'' \<in> set s"
  shows "matches [Grp, Eos] pos s = None"
proof -
  obtain r t where s: "s = r @ CHR ''/'' # t" and r: "CHR ''/'' \<notin> set r"
    using split_list_first[OF assms] by blast
  show ?thesis
  proof (rule Grp_none)
    fix k assume "k \<le> length (run s)"
    then have "k \<le> length r" by (simp only: s run_before_slash[OF r])
    then have "CHR ''/'' \<in> set (drop k s)" by (simp add: s)
    then show "matches [Eos] (pos + k) (drop k s) = None" by (rule matches_Eos_slash)
  qed
qed

lemma matches_Grp_Eos: "matches [Grp, Eos] pos s = (if seg s then Some ([s], []) else None)"
  by (cases "s = []"; cases "CHR ''/'' \<in> set s")
     (simp_all add: matches_Grp_Eos_seg matches_Grp_Eos_slash matches_Grp_Eos_empty seg_def
        del: matches.simps)

lemma matches_Grp_slash_none:
  assumes "CHR ''/'' \<notin> set s"
  shows "matches (Grp # Chr CHR ''/'' # ps) pos s = None"
proof (rule Grp_none)
  fix k
  show "matches (Chr CHR ''/'' # ps) (pos + k) (drop k s) = None"
  proof (cases "drop k s")
    case Nil
    then show ?thesis by simp
  next
    case (Cons a as)
    then have "a \<in> set s" by (metis in_set_dropD list.set_intros(1))
    with assms Cons show ?thesis by auto
  qed
qed

lemma matches_Grp_slash:
  assumes "CHR ''/'' \<notin> set r"
  shows "matches (Grp # Chr CHR ''/'' # ps) pos (r @ CHR ''/'' # t) =
     (if r = [] then None else with_group r (matches ps (Suc (pos + length r)) t))"
proof (cases "r = []")
  case True
  then show ?thesis by simp
next
  case False
  let ?s = "r @ CHR ''/'' # t"
  have run: "run ?s = r" using assms by (rule run_before_slash)
  have "matches (Grp # Chr CHR ''/'' # ps) pos ?s =
         with_group (take (length (run ?s)) ?s)
           (matches (Chr CHR ''/'' # ps) (pos + length (run ?s)) (drop (length (run ?s)) ?s))"
  proof (rule Grp_longest)
    show "run ?s \<noteq> []" unfolding run by (rule False)
  next
    fix k assume "k < length (run ?s)"
    then have kl: "k < length r" by (simp only: run)
    obtain a as where d: "drop k r = a # as" using kl by (cases "drop k r") auto
    then have "a \<in> set r" by (metis in_set_dropD list.set_intros(1))
    then have "a \<noteq> CHR ''/''" using assms by auto
    moreover have "drop k ?s = a # as @ CHR ''/'' # t" using kl d by simp
    ultimately show "matches (Chr CHR ''/'' # ps) (pos + k) (drop k ?s) = None"
      by (rule matches_Chr_other[rotated])
  qed
  then show ?thesis using False by (simp add: run)
qed

text \<open>The tail \<^verbatim>\<open>([^/]+)/([^/]+)$\<close> matches exactly owner, slash, repo.\<close>

lemma matches_tail_repo:
  "matches [Grp, Chr CHR ''/'', Grp, Eos] pos s = Some m \<longleftrightarrow>
     (\<exists>owner repo. s = owner @ ''/'' @ repo \<and> seg owner \<and> seg repo \<and> m = ([owner, repo], []))"
proof (cases "CHR ''/'' \<in> set s")
  case False
  then have "\<not> (\<exists>owner repo. s = owner @ ''/'' @ repo)" by auto
  then show ?thesis using False by (auto simp add: matches_Grp_slash_none simp del: matches.simps)
next
  case True
  then obtain r t where s: "s = r @ CHR ''/'' # t" and r: "CHR ''/'' \<notin> set r"
    using split_list_first by fastforce
  have uniq: "owner = r \<and> repo = t" if "s = owner @ ''/'' @ repo" "seg owner" for owner repo
  proof -
    have "run (owner @ CHR ''/'' # repo) = owner"
      using that(2) by (simp add: seg_def run_before_slash)
    moreover have "run (r @ CHR ''/'' # t) = r" using r by (rule run_before_slash)
    ultimately have "owner = r" using that(1) s by simp
    then show ?thesis using that(1) s by simp
  qed
  show ?thesis
  proof
    assume "matches [Grp, Chr CHR ''/'', Grp, Eos] pos s = Some m"
    then have "r \<noteq> [] \<and> seg t \<and> m = ([r, t], [])"
      unfolding s matches_Grp_slash[OF r] matches_Grp_Eos by (auto split: if_splits)
    then show "\<exists>owner repo. s = owner @ ''/'' @ repo \<and> seg owner \<and> seg repo \<and> m = ([owner, repo], [])"
      using s r by (auto simp: seg_def)
  next
    assume "\<exists>owner repo. s = owner @ ''/'' @ repo \<and> seg owner \<and> seg repo \<and> m = ([owner, repo], [])"
    then obtain owner repo
      where *: "s = owner @ ''/'' @ repo" "seg owner" "seg repo" "m = ([owner, repo], [])"
      by blast
    then have "owner = r" "repo = t" using uniq by blast+
    then show "matches [Grp, Chr CHR ''/'', Grp, Eos] pos s = Some m"
      unfolding s matches_Grp_slash[OF r] matches_Grp_Eos using * by (simp add: seg_def)
  qed
qed

lemma matches_lit:
  "matches (map Chr lit @ ps) pos s =
     (if take (length lit) s = lit then matches ps (pos + length lit) (drop (length lit) s)
      else None)"
proof (induction lit arbitrary: pos s)
  case Nil
  then show ?case by simp
next
  case (Cons c lit)
  then show ?case by (cases s) auto
qed

lemma pat_repo: "compile ''^https://github.com/([^/]+)/([^/]+)$'' =
  Bos # map Chr ''https://github'' @ Dot # map Chr ''com/'' @ [Grp, Chr CHR ''/'', Grp, Eos]"
  by simp

lemma pat_hepta: "compile ''^https://foss.heptapod.net/([^/]+)/([^/]+)$'' =
  Bos # map Chr ''https://foss'' @ Dot # map Chr ''heptapod'' @ Dot # map Chr ''net/''
    @ [Grp, Chr CHR ''/'', Grp, Eos]"
  by simp

lemma pat_org: "compile ''^https://github.com/([^/]+)$'' =
  Bos # map Chr ''https://github'' @ Dot # map Chr ''com/'' @ [Grp, Eos]"
  by simp

lemma matches_lit_iff:
  "matches (map Chr lit @ ps) pos s = Some m \<longleftrightarrow>
     (\<exists>t. s = lit @ t \<and> matches ps (pos + length lit) t = Some m)"
proof -
  have "take (length lit) s = lit \<longleftrightarrow> s = lit @ drop (length lit) s"
    by (metis append_eq_conv_conj)
  then show ?thesis
    by (auto simp: matches_lit)
qed

lemma matches_Grp_Eos_iff:
  "matches [Grp, Eos] pos s = Some m \<longleftrightarrow> seg s \<and> m = ([s], [])"
  unfolding matches_Grp_Eos by auto

lemma search_anchored_iff:
  assumes "compile p = Bos # ps"
  shows "re_search p s = Some m \<longleftrightarrow> (\<exists>rest. matches ps 0 s = Some (m, rest))"
  unfolding search_anchored[OF assms] by (cases "matches ps 0 s") auto

lemma matches_Dot_iff:
  "matches (Dot # ps) pos s = Some m \<longleftrightarrow>
     (\<exists>d t. s = d # t \<and> d \<noteq> newline \<and> matches ps (Suc pos) t = Some m)"
  by (cases s) auto

text \<open>What the three searches of \<^verbatim>\<open>check_project\<close> accept: each dot of a host name
  stands for any character but a newline.\<close>

lemma search_github_repo:
  "re_search ''^https://github.com/([^/]+)/([^/]+)$'' u = Some m \<longleftrightarrow>
     (\<exists>d owner repo. d \<noteq> newline \<and> seg owner \<and> seg repo \<and> m = [owner, repo] \<and>
        u = ''https://github'' @ d # ''com/'' @ owner @ ''/'' @ repo)"
  unfolding search_anchored_iff[OF pat_repo] matches_lit_iff matches_Dot_iff matches_tail_repo
  by auto

lemma search_heptapod_repo:
  "re_search ''^https://foss.heptapod.net/([^/]+)/([^/]+)$'' u = Some m \<longleftrightarrow>
     (\<exists>d e owner repo. d \<noteq> newline \<and> e \<noteq> newline \<and> seg owner \<and> seg repo \<and>
        m = [owner, repo] \<and>
        u = ''https://foss'' @ d # ''heptapod'' @ e # ''net/'' @ owner @ ''/'' @ repo)"
  unfolding search_anchored_iff[OF pat_hepta] matches_lit_iff matches_Dot_iff matches_tail_repo
  by auto

lemma search_github_organization:
  "re_search ''^https://github.com/([^/]+)$'' u = Some m \<longleftrightarrow>
     (\<exists>d owner. d \<noteq> newline \<and> seg owner \<and> m = [owner] \<and>
        u = ''https://github'' @ d # ''com/'' @ owner)"
  unfolding search_anchored_iff[OF pat_org] matches_lit_iff matches_Dot_iff matches_Grp_Eos_iff
  by auto

lemma dot_not_newline: "CHR ''.'' \<noteq> newline"
  by (simp add: newline_def)

lemma check_project_github_repo:
  assumes "seg owner" "seg repo"
  shows "check_project (''https://github.com/'' @ owner @ ''/'' @ repo)
           = (Some ''github_repo'', Some repo)"
proof -
  have "re_search ''^https://github.com/([^/]+)/([^/]+)$''
          (''https://github.com/'' @ owner @ ''/'' @ repo) = Some [owner, repo]"
    unfolding search_github_repo using assms dot_not_newline by auto
  then show ?thesis by (simp add: check_project_def group_def)
qed

lemma check_project_heptapod_repo:
  assumes "seg owner" "seg repo"
  shows "check_project (''https://foss.heptapod.net/'' @ owner @ ''/'' @ repo)
           = (Some ''heptapod_repo'', Some repo)"
proof -
  let ?u = "''https://foss.heptapod.net/'' @ owner @ ''/'' @ repo"
  have "re_search ''^https://github.com/([^/]+)/([^/]+)$'' ?u = None"
  proof (cases "re_search ''^https://github.com/([^/]+)/([^/]+)$'' ?u")
    case (Some m)
    then show ?thesis unfolding search_github_repo by auto
  qed simp
  moreover have "re_search ''^https://foss.heptapod.net/([^/]+)/([^/]+)$'' ?u = Some [owner, repo]"
    unfolding search_heptapod_repo using assms dot_not_newline by auto
  ultimately show ?thesis by (simp add: check_project_def group_def)
qed

lemma check_project_github_organization:
  assumes "seg owner"
  shows "check_project (''https://github.com/'' @ owner) = (Some ''github_organization'', Some owner)"
proof -
  let ?u = "''https://github.com/'' @ owner"
  have "re_search ''^https://github.com/([^/]+)/([^/]+)$'' ?u = None"
  proof (cases "re_search ''^https://github.com/([^/]+)/([^/]+)$'' ?u")
    case (Some m)
    then obtain o' r' where "owner = o' @ ''/'' @ r'"
      unfolding search_github_repo by auto
    then show ?thesis using assms by (simp add: seg_def)
  qed simp
  moreover have "re_search ''^https://foss.heptapod.net/([^/]+)/([^/]+)$'' ?u = None"
  proof (cases "re_search ''^https://foss.heptapod.net/([^/]+)/([^/]+)$'' ?u")
    case (Some m)
    then show ?thesis unfolding search_heptapod_repo by auto
  qed simp
  moreover have "re_search ''^https://github.com/([^/]+)$'' ?u = Some [owner]"
    unfolding search_github_organization using assms dot_not_newline by auto
  ultimately show ?thesis by (simp add: check_project_def group_def)
qed

text \<open>
  C1. The claim: a URL of one of the three shapes is classified by the first shape that
  matches, and every other URL yields \<^verbatim>\<open>(None, None)\<close>. The three lemmas above
  prove the first part. The second part fails: the dots of the host names are not escaped
  in the patterns, so \<^verbatim>\<open>https://githubXcom/alice/tool\<close>, which has none of the three
  shapes, is classified as a repository on github.
\<close>

theorem check_project_dot_wildcard:
  "\<not> literal_shape ''https://githubXcom/alice/tool'' \<and>
   check_project ''https://githubXcom/alice/tool'' = (Some ''github_repo'', Some ''tool'')"
proof
  show "\<not> literal_shape ''https://githubXcom/alice/tool''"
    by (simp add: literal_shape_def)
  have "re_search ''^https://github.com/([^/]+)/([^/]+)$'' ''https://githubXcom/alice/tool''
          = Some [''alice'', ''tool'']"
    unfolding search_github_repo by (simp add: seg_def newline_def)
  then show "check_project ''https://githubXcom/alice/tool'' = (Some ''github_repo'', Some ''tool'')"
    by (simp add: check_project_def group_def)
qed

lemma check_project_unrecognized:
  "check_project u = (None, None) \<longleftrightarrow>
     re_search ''^https://github.com/([^/]+)/([^/]+)$'' u = None \<and>
     re_search ''^https://foss.heptapod.net/([^/]+)/([^/]+)$'' u = None \<and>
     re_search ''^https://github.com/([^/]+)$'' u = None"
  by (auto simp: check_project_def split: option.splits)

lemma check_project_falsy:
  "falsy (fst (check_project u)) \<longleftrightarrow> check_project u = (None, None)"
  by (auto simp: check_project_def split: option.splits)

section \<open>The project validator\<close>

lemma check_urls_append:
  assumes "list_all passes us1"
  shows "check_urls person acc (us1 @ us2) = check_urls person (acc @ map project_of us1) us2"
  using assms
proof (induction us1 arbitrary: acc)
  case Nil
  then show ?case by simp
next
  case (Cons u us1)
  then show ?case
    by (cases "check_project u") (simp add: passes_def project_of_def)
qed

lemma check_urls_all_pass:
  assumes "list_all passes us"
  shows "check_urls person acc us = Inr (acc @ map project_of us)"
  using check_urls_append[OF assms, of person acc "[]"] by simp

lemma check_urls_first_bad:
  assumes "list_all passes us1" "\<not> passes u"
  shows "check_urls person acc (us1 @ u # us2) = Inl (invalid_project u person)"
proof -
  have "check_urls person acc (us1 @ u # us2)
          = check_urls person (acc @ map project_of us1) (u # us2)"
    using assms(1) by (rule check_urls_append)
  also have "\<dots> = Inl (invalid_project u person)"
    using assms(2) by (cases "check_project u") (simp add: passes_def)
  finally show ?thesis .
qed

lemma check_people_append:
  assumes "list_all all_pass before"
  shows "\<exists>seen' all'. check_people seen all_projects (before @ rest)
                        = check_people seen' all' rest"
  using assms
proof (induction before arbitrary: seen all_projects)
  case Nil
  then show ?case by auto
next
  case (Cons q before)
  show ?case
  proof (cases "projects q")
    case None
    then show ?thesis using Cons by simp
  next
    case (Some us)
    then have "list_all passes us" using Cons.prems by (simp add: all_pass_def)
    then have "check_urls q [] us = Inr (map project_of us)"
      using check_urls_all_pass[of us q "[]"] by simp
    then show ?thesis using Some Cons by simp
  qed
qed

text \<open>
  Fail-fast: the run ends at the first URL that \<^verbatim>\<open>check_project\<close> does not recognise,
  with a message that holds the URL, the record's name and its github identifier; the
  URLs and records after it play no part in the result.
\<close>

lemma check_projects_fail_fast:
  assumes "list_all all_pass before"
    and "projects p = Some (us1 @ u # us2)" "list_all passes us1" "\<not> passes u"
    and "name p = Some n" "github p = Some g"
  shows "check_projects (before @ p # after)
           = Inl (SystemExit (''Invalid project '' @ [quote] @ u @ [quote] @ '' by '' @ n
                    @ '' github='' @ [quote] @ g @ [quote]))"
proof -
  obtain seen' all' where
    "check_people [] [] (before @ p # after) = check_people seen' all' (p # after)"
    using check_people_append[OF assms(1)] by blast
  moreover have "check_urls p [] (us1 @ u # us2) = Inl (invalid_project u p)"
    using assms(3,4) by (rule check_urls_first_bad)
  ultimately show ?thesis
    using assms(2,5,6) by (simp add: check_projects_def invalid_project_def)
qed

lemma check_people_all_pass:
  assumes "list_all all_pass people"
  shows "check_people seen all_projects people =
           Inr (seen @ map (\<lambda>q. checked q (map_option (map project_of) (projects q))) people,
                all_projects @ concat (map (\<lambda>q. case projects q of None \<Rightarrow> []
                                                 | Some us \<Rightarrow> map project_of us) people))"
  using assms
proof (induction people arbitrary: seen all_projects)
  case Nil
  then show ?case by simp
next
  case (Cons q people)
  show ?case
  proof (cases "projects q")
    case None
    then show ?thesis using Cons by simp
  next
    case (Some us)
    then have "list_all passes us" using Cons.prems by (simp add: all_pass_def)
    then have "check_urls q [] us = Inr (map project_of us)"
      using check_urls_all_pass[of us q "[]"] by simp
    then show ?thesis using Some Cons by simp
  qed
qed

text \<open>The end-to-end scenario of the specification: one mentor with one repository.\<close>

lemma check_projects_alice:
  "check_projects [\<lparr>name = Some ''Alice'', github = Some ''alice'', posts = None,
                    projects = Some [''https://github.com/alice/tool''], gh = None\<rparr>]
     = Inr ([\<lparr>name = Some ''Alice'', github = Some ''alice'', posts = None,
               projects = Some [\<lparr>project_url = ''https://github.com/alice/tool'',
                                  project_name = Some ''tool''\<rparr>], gh = None\<rparr>],
            [\<lparr>project_url = ''https://github.com/alice/tool'', project_name = Some ''tool''\<rparr>])"
proof -
  have "check_project (''https://github.com/'' @ ''alice'' @ ''/'' @ ''tool'')
          = (Some ''github_repo'', Some ''tool'')"
    by (rule check_project_github_repo) (simp_all add: seg_def)
  then show ?thesis
    by (simp add: check_projects_def checked_def)
qed

text \<open>
  C2. The claim: when a project list holds a URL that has none of the three shapes, the
  run ends at the first such URL with a fatal error that names the URL, the record's
  name and its github identifier. The lemma \<open>check_projects_fail_fast\<close> proves this for
  every URL that \<^verbatim>\<open>check_project\<close> does not recognise. But \<^verbatim>\<open>check_project\<close>
  recognises URLs that have none of the three shapes (the dots of its patterns are not
  escaped), and for
  those the run does not end: the record below passes, with an entry for its URL.
\<close>

theorem check_projects_dot_wildcard:
  "\<not> literal_shape ''https://github+com/eve/site'' \<and>
   check_projects [\<lparr>name = Some ''Eve'', github = Some ''eve'', posts = None,
                    projects = Some [''https://github+com/eve/site''], gh = None\<rparr>]
     = Inr ([\<lparr>name = Some ''Eve'', github = Some ''eve'', posts = None,
               projects = Some [\<lparr>project_url = ''https://github+com/eve/site'',
                                  project_name = Some ''site''\<rparr>], gh = None\<rparr>],
            [\<lparr>project_url = ''https://github+com/eve/site'', project_name = Some ''site''\<rparr>])"
proof
  show "\<not> literal_shape ''https://github+com/eve/site''"
    by (simp add: literal_shape_def)
  have "re_search ''^https://github.com/([^/]+)/([^/]+)$'' ''https://github+com/eve/site''
          = Some [''eve'', ''site'']"
    unfolding search_github_repo by (simp add: seg_def newline_def)
  then have "check_project ''https://github+com/eve/site'' = (Some ''github_repo'', Some ''site'')"
    by (simp add: check_project_def group_def)
  then show "check_projects [\<lparr>name = Some ''Eve'', github = Some ''eve'', posts = None,
                    projects = Some [''https://github+com/eve/site''], gh = None\<rparr>]
     = Inr ([\<lparr>name = Some ''Eve'', github = Some ''eve'', posts = None,
               projects = Some [\<lparr>project_url = ''https://github+com/eve/site'',
                                  project_name = Some ''site''\<rparr>], gh = None\<rparr>],
            [\<lparr>project_url = ''https://github+com/eve/site'', project_name = Some ''site''\<rparr>])"
    by (simp add: check_projects_def checked_def)
qed

text \<open>The second end-to-end scenario: a URL on another host ends the run.\<close>

lemma check_project_example_com: "check_project ''https://example.com/not-a-repo'' = (None, None)"
  unfolding check_project_unrecognized
proof (intro conjI)
  show "re_search ''^https://github.com/([^/]+)/([^/]+)$'' ''https://example.com/not-a-repo'' = None"
    by (cases "re_search ''^https://github.com/([^/]+)/([^/]+)$'' ''https://example.com/not-a-repo''")
       (simp_all add: search_github_repo)
  show "re_search ''^https://foss.heptapod.net/([^/]+)/([^/]+)$'' ''https://example.com/not-a-repo'' = None"
    by (cases "re_search ''^https://foss.heptapod.net/([^/]+)/([^/]+)$'' ''https://example.com/not-a-repo''")
       (simp_all add: search_heptapod_repo)
  show "re_search ''^https://github.com/([^/]+)$'' ''https://example.com/not-a-repo'' = None"
    by (cases "re_search ''^https://github.com/([^/]+)$'' ''https://example.com/not-a-repo''")
       (simp_all add: search_github_organization)
qed

lemma check_projects_example_com:
  "check_projects [\<lparr>name = Some ''Bob'', github = Some ''bob'', posts = None,
                    projects = Some [''https://example.com/not-a-repo''], gh = None\<rparr>]
     = Inl (SystemExit (''Invalid project '' @ [quote] @ ''https://example.com/not-a-repo''
              @ [quote] @ '' by Bob github='' @ [quote] @ ''bob'' @ [quote]))"
  using check_projects_fail_fast[of "[]" _ "[]" "''https://example.com/not-a-repo''" "[]"
      "''Bob''" "''bob''" "[]"]
  by (simp add: passes_def check_project_example_com)

section \<open>The enrichers\<close>

subsection \<open>\<^verbatim>\<open>update_devto_posts\<close>\<close>

lemma fetches_append: "fetches (us @ vs) = fetches us @ fetches vs"
  by (simp add: fetches_def)

lemma devto_page_spec:
  assumes "devto_page fetch (c, tr) page = (page', c', tr')"
  shows "c \<subseteq>\<^sub>m c' \<and> url page' = url page \<and> details page' = c' (url page)
         \<and> c' (url page) \<noteq> None
         \<and> (\<exists>us. set us \<inter> dom c = {} \<and> tr' = tr @ fetches us)"
proof (cases "c (url page)")
  case None
  then have *: "page' = page\<lparr>details := Some (fetch (url page))\<rparr>"
      "c' = c(url page \<mapsto> fetch (url page))" "tr' = tr @ fetches [url page]"
    using assms by (simp_all add: devto_page_def Let_def fetches_def)
  have 1: "c \<subseteq>\<^sub>m c'" using None * by (auto simp: map_le_def dom_def)
  have 2: "url page' = url page" "details page' = c' (url page)" "c' (url page) \<noteq> None"
    using * by simp_all
  have "set [url page] \<inter> dom c = {}" using None by (auto simp: dom_def)
  then have 3: "\<exists>us. set us \<inter> dom c = {} \<and> tr' = tr @ fetches us"
    using * by blast
  show ?thesis using 1 2 3 by blast
next
  case (Some v)
  then have "page' = page\<lparr>details := Some v\<rparr>" "c' = c" "tr' = tr @ fetches []"
    using assms by (simp_all add: devto_page_def fetches_def)
  moreover have "set [] \<inter> dom c = {}" by simp
  ultimately show ?thesis using Some by (intro conjI exI[of _ "[]"]) simp_all
qed

lemma devto_pages_spec:
  assumes "devto_pages fetch (c, tr) pages = (pages', c', tr')"
  shows "c \<subseteq>\<^sub>m c' \<and> map url pages' = map url pages
         \<and> (\<forall>p\<in>set pages'. details p = c' (url p) \<and> details p \<noteq> None)
         \<and> (\<exists>us. set us \<inter> dom c = {} \<and> tr' = tr @ fetches us)"
  using assms
proof (induction pages arbitrary: c tr pages')
  case Nil
  then have "tr' = tr @ fetches []" "c' = c" "pages' = []" by (simp_all add: fetches_def)
  then show ?case by (intro conjI exI[of _ "[]"]) simp_all
next
  case (Cons page pages)
  obtain p1 c1 tr1 where step: "devto_page fetch (c, tr) page = (p1, c1, tr1)"
    by (cases "devto_page fetch (c, tr) page") auto
  obtain ps2 where rest: "devto_pages fetch (c1, tr1) pages = (ps2, c', tr')"
      and pages': "pages' = p1 # ps2"
    using Cons.prems step by (auto split: prod.splits)
  from devto_page_spec[OF step] obtain us1 where
    s1: "c \<subseteq>\<^sub>m c1" "url p1 = url page" "details p1 = c1 (url page)" "c1 (url page) \<noteq> None"
      "set us1 \<inter> dom c = {}" "tr1 = tr @ fetches us1"
    by blast
  from Cons.IH[OF rest] obtain us2 where
    s2: "c1 \<subseteq>\<^sub>m c'" "map url ps2 = map url pages"
      "\<forall>p\<in>set ps2. details p = c' (url p) \<and> details p \<noteq> None"
      "set us2 \<inter> dom c1 = {}" "tr' = tr1 @ fetches us2"
    by blast
  have "c \<subseteq>\<^sub>m c'" using s1(1) s2(1) by (rule map_le_trans)
  moreover have "c' (url page) = c1 (url page)"
    using s2(1) s1(4) by (metis domIff map_le_def)
  moreover have "set (us1 @ us2) \<inter> dom c = {}"
    using s1(5) s2(4) map_le_implies_dom_le[OF s1(1)] by (simp only: set_append) blast
  moreover have "tr' = tr @ fetches (us1 @ us2)"
    using s1(6) s2(5) by (simp add: fetches_append)
  ultimately show ?case
    using s1 s2 pages' by (metis list.simps(9) set_ConsD)
qed

lemma devto_people_spec:
  assumes "devto_people fetch (c, tr) people = (people', c', tr')"
  shows "c \<subseteq>\<^sub>m c' \<and> map post_urls people' = map post_urls people
         \<and> (\<forall>person\<in>set people'. \<forall>ps. posts person = Some ps \<longrightarrow>
               (\<forall>p\<in>set ps. details p = c' (url p) \<and> details p \<noteq> None))
         \<and> (\<exists>us. set us \<inter> dom c = {} \<and> tr' = tr @ fetches us)"
  using assms
proof (induction people arbitrary: c tr people')
  case Nil
  then have "tr' = tr @ fetches []" "c' = c" "people' = []" by (simp_all add: fetches_def)
  then show ?case by (intro conjI exI[of _ "[]"]) simp_all
next
  case (Cons person people)
  show ?case
  proof (cases "posts person")
    case None
    then obtain ps2 where rest: "devto_people fetch (c, tr) people = (ps2, c', tr')"
      and people': "people' = person # ps2"
      using Cons.prems by (auto split: prod.splits)
    from Cons.IH[OF rest] have
      ih: "c \<subseteq>\<^sub>m c'" "map post_urls ps2 = map post_urls people"
        "\<forall>q\<in>set ps2. \<forall>ps. posts q = Some ps \<longrightarrow>
               (\<forall>p\<in>set ps. details p = c' (url p) \<and> details p \<noteq> None)"
        "\<exists>us. set us \<inter> dom c = {} \<and> tr' = tr @ fetches us"
      by blast+
    have "map post_urls people' = map post_urls (person # people)"
      using people' ih(2) by simp
    moreover have "\<forall>q\<in>set people'. \<forall>ps. posts q = Some ps \<longrightarrow>
               (\<forall>p\<in>set ps. details p = c' (url p) \<and> details p \<noteq> None)"
    proof (intro ballI allI impI)
      fix q ps p
      assume q: "q \<in> set people'" "posts q = Some ps" and p: "p \<in> set ps"
      then have "q \<in> set ps2" using people' None by auto
      then show "details p = c' (url p) \<and> details p \<noteq> None"
        using ih(3) q(2) p by blast
    qed
    ultimately show ?thesis using ih(1,4) by blast
  next
    case (Some pages)
    obtain pages1 c1 tr1 where step: "devto_pages fetch (c, tr) pages = (pages1, c1, tr1)"
      by (cases "devto_pages fetch (c, tr) pages") auto
    obtain ps2 where rest: "devto_people fetch (c1, tr1) people = (ps2, c', tr')"
      and people': "people' = person\<lparr>posts := Some pages1\<rparr> # ps2"
      using Cons.prems Some step by (auto split: prod.splits)
    from devto_pages_spec[OF step] obtain us1 where
      s1: "c \<subseteq>\<^sub>m c1" "map url pages1 = map url pages"
        "\<forall>p\<in>set pages1. details p = c1 (url p) \<and> details p \<noteq> None"
        "set us1 \<inter> dom c = {}" "tr1 = tr @ fetches us1"
      by blast
    from Cons.IH[OF rest] obtain us2 where
      s2: "c1 \<subseteq>\<^sub>m c'" "map post_urls ps2 = map post_urls people"
        "\<forall>person\<in>set ps2. \<forall>ps. posts person = Some ps \<longrightarrow>
               (\<forall>p\<in>set ps. details p = c' (url p) \<and> details p \<noteq> None)"
        "set us2 \<inter> dom c1 = {}" "tr' = tr1 @ fetches us2"
      by blast
    have le: "c \<subseteq>\<^sub>m c'" using s1(1) s2(1) by (rule map_le_trans)
    have first: "\<forall>p\<in>set pages1. details p = c' (url p) \<and> details p \<noteq> None"
    proof
      fix p assume "p \<in> set pages1"
      then have "details p = c1 (url p)" "details p \<noteq> None" using s1(3) by blast+
      moreover from this have "c' (url p) = c1 (url p)"
        using s2(1) by (metis domIff map_le_def)
      ultimately show "details p = c' (url p) \<and> details p \<noteq> None" by simp
    qed
    have urls: "map post_urls people' = map post_urls (person # people)"
      using people' Some s1(2) s2(2) by (simp add: post_urls_def)
    have "set (us1 @ us2) \<inter> dom c = {}"
      using s1(4) s2(4) map_le_implies_dom_le[OF s1(1)] by (simp only: set_append) blast
    moreover have "tr' = tr @ fetches (us1 @ us2)"
      using s1(5) s2(5) by (simp add: fetches_append)
    ultimately have tr: "\<exists>us. set us \<inter> dom c = {} \<and> tr' = tr @ fetches us" by blast
    have all: "\<forall>q\<in>set people'. \<forall>ps. posts q = Some ps \<longrightarrow>
               (\<forall>p\<in>set ps. details p = c' (url p) \<and> details p \<noteq> None)"
    proof (intro ballI allI impI)
      fix q ps p
      assume q: "q \<in> set people'" "posts q = Some ps" and p: "p \<in> set ps"
      from q(1) people' consider "q = person\<lparr>posts := Some pages1\<rparr>" | "q \<in> set ps2"
        by auto
      then show "details p = c' (url p) \<and> details p \<noteq> None"
      proof cases
        case 1
        then have "ps = pages1" using q(2) by simp
        then show ?thesis using first p by blast
      next
        case 2
        then show ?thesis using s2(3) q(2) p by blast
      qed
    qed
    show ?thesis using le urls all tr by blast
  qed
qed

text \<open>After \<^verbatim>\<open>update_devto_posts\<close> every post of every record has its \<^verbatim>\<open>details\<close>.\<close>

lemma update_devto_posts_details:
  assumes "person \<in> set (fst (update_devto_posts fetch cache people))"
    and "posts person = Some ps" "p \<in> set ps"
  shows "details p \<noteq> None"
proof -
  obtain people' c' tr' where r: "devto_people fetch (cache, []) people = (people', c', tr')"
    by (cases "devto_people fetch (cache, []) people") auto
  then have "person \<in> set people'" using assms(1) by (simp add: update_devto_posts_def)
  with devto_people_spec[OF r] assms(2,3) show ?thesis by blast
qed

subsection \<open>\<^verbatim>\<open>update_github_data\<close>\<close>

lemma lookups_append: "lookups g (us @ vs) = lookups g us @ lookups g vs"
  by (simp add: lookups_def)

lemma github_person_spec:
  assumes "github_person g (c, tr) person = Inr (person', c', tr')"
  shows "c \<subseteq>\<^sub>m c' \<and> github person' = github person
         \<and> (\<forall>k. github person = Some k \<longrightarrow> k \<in> dom c \<longrightarrow> gh person' = c k)
         \<and> (\<exists>us. set us \<inter> dom c = {} \<and> tr' = tr @ lookups g us)"
proof -
  obtain k where k: "github person = Some k"
    using assms by (cases "github person") (simp_all add: github_person_def)
  show ?thesis
  proof (cases "c k")
    case (Some v)
    then have "person' = person\<lparr>gh := Some v\<rparr>" "c' = c" "tr' = tr @ lookups g []"
      using assms k by (simp_all add: github_person_def lookups_def)
    moreover have "set [] \<inter> dom c = {}" by simp
    ultimately show ?thesis using Some k by (intro conjI exI[of _ "[]"]) simp_all
  next
    case None
    then have tr': "tr' = tr @ lookups g [k]"
      using assms k by (auto simp: github_person_def lookups_def Let_def split: if_splits)
    have "c' = c \<or> c' = c(k \<mapsto> g k)"
      using assms k None by (auto simp: github_person_def Let_def split: if_splits)
    then have 1: "c \<subseteq>\<^sub>m c'" using None by (auto simp: map_le_def dom_def)
    have 2: "github person' = github person"
      using assms k None by (auto simp: github_person_def Let_def split: if_splits)
    have "set [k] \<inter> dom c = {}" using None by (auto simp: dom_def)
    then have 3: "\<exists>us. set us \<inter> dom c = {} \<and> tr' = tr @ lookups g us" using tr' by blast
    have 4: "\<forall>k'. github person = Some k' \<longrightarrow> k' \<in> dom c \<longrightarrow> gh person' = c k'"
      using k None by (auto simp: dom_def)
    show ?thesis using 1 2 3 4 by blast
  qed
qed

lemma github_people_spec:
  assumes "github_people g (c, tr) people = Inr (people', c', tr')"
  shows "c \<subseteq>\<^sub>m c' \<and> map github people' = map github people
         \<and> (\<forall>person\<in>set people'. \<forall>k. github person = Some k \<longrightarrow> k \<in> dom c
               \<longrightarrow> gh person = c k)
         \<and> (\<exists>us. set us \<inter> dom c = {} \<and> tr' = tr @ lookups g us)"
  using assms
proof (induction people arbitrary: c tr people')
  case Nil
  then have "tr' = tr @ lookups g []" "c' = c" "people' = []" by (simp_all add: lookups_def)
  then show ?case by (intro conjI exI[of _ "[]"]) simp_all
next
  case (Cons person people)
  obtain p1 c1 tr1 where step: "github_person g (c, tr) person = Inr (p1, c1, tr1)"
    using Cons.prems by (auto split: sum.splits)
  obtain ps2 where rest: "github_people g (c1, tr1) people = Inr (ps2, c', tr')"
    and people': "people' = p1 # ps2"
    using Cons.prems step by (auto split: sum.splits)
  from github_person_spec[OF step] obtain us1 where
    s1: "c \<subseteq>\<^sub>m c1" "github p1 = github person"
      "\<forall>k. github person = Some k \<longrightarrow> k \<in> dom c \<longrightarrow> gh p1 = c k"
      "set us1 \<inter> dom c = {}" "tr1 = tr @ lookups g us1"
    by blast
  from Cons.IH[OF rest] obtain us2 where
    s2: "c1 \<subseteq>\<^sub>m c'" "map github ps2 = map github people"
      "\<forall>person\<in>set ps2. \<forall>k. github person = Some k \<longrightarrow> k \<in> dom c1 \<longrightarrow> gh person = c1 k"
      "set us2 \<inter> dom c1 = {}" "tr' = tr1 @ lookups g us2"
    by blast
  have le: "c \<subseteq>\<^sub>m c'" using s1(1) s2(1) by (rule map_le_trans)
  have ids: "map github people' = map github (person # people)"
    using people' s1(2) s2(2) by simp
  have "set (us1 @ us2) \<inter> dom c = {}"
    using s1(4) s2(4) map_le_implies_dom_le[OF s1(1)] by (simp only: set_append) blast
  moreover have "tr' = tr @ lookups g (us1 @ us2)"
    using s1(5) s2(5) by (simp add: lookups_append)
  ultimately have tr: "\<exists>us. set us \<inter> dom c = {} \<and> tr' = tr @ lookups g us" by blast
  have all: "\<forall>q\<in>set people'. \<forall>k. github q = Some k \<longrightarrow> k \<in> dom c \<longrightarrow> gh q = c k"
  proof (intro ballI allI impI)
    fix q k
    assume q: "q \<in> set people'" "github q = Some k" and k: "k \<in> dom c"
    from q(1) people' consider "q = p1" | "q \<in> set ps2" by auto
    then show "gh q = c k"
    proof cases
      case 1
      then show ?thesis using s1(2,3) q(2) k by simp
    next
      case 2
      have "k \<in> dom c1" using k map_le_implies_dom_le[OF s1(1)] by blast
      then have "gh q = c1 k" using 2 s2(3) q(2) by blast
      moreover have "c1 k = c k" using s1(1) k by (simp add: map_le_def)
      ultimately show ?thesis by simp
    qed
  qed
  show ?case using le ids all tr by blast
qed

lemma Fetch_in_fetches: "Fetch k \<in> set (fetches us) \<longleftrightarrow> k \<in> set us"
  by (induction us) (auto simp: fetches_def)

lemma GetUserInfo_in_lookups: "GetUserInfo k \<in> set (lookups g us) \<longleftrightarrow> k \<in> set us"
  by (induction us) (auto simp: lookups_def)

lemma no_call_for_cached:
  assumes "set us \<inter> dom cache = {}" "k \<in> dom cache"
  shows "Fetch k \<notin> set (fetches us)" "GetUserInfo k \<notin> set (lookups g us)"
  using assms by (auto simp: Fetch_in_fetches GetUserInfo_in_lookups)

text \<open>
  C5. For a key of the loaded cache the enrichers make no external call and no pause,
  and attach the cached value: the trace of \<^verbatim>\<open>update_devto_posts\<close> consists of one
  fetch and one pause for each of a list of URLs none of which is a key of the loaded
  cache (so it holds no fetch of such a key), and every post whose URL is a key of the loaded cache gets the cached value as
  its \<^verbatim>\<open>details\<close>; the trace of \<^verbatim>\<open>update_github_data\<close> consists of the lookups
  (each followed by a pause when it finds a profile) of identifiers none of which is a
  key of the loaded cache, and every record whose identifier is a key gets the cached
  value as its \<^verbatim>\<open>gh\<close>. The records keep their posts' URLs and their identifiers.
\<close>

theorem cached_keys_not_fetched:
  "(case update_devto_posts fetch cache people of
      (people', cache', tr) \<Rightarrow>
        map post_urls people' = map post_urls people
        \<and> (\<exists>us. set us \<inter> dom cache = {} \<and> tr = fetches us)
        \<and> (\<forall>k\<in>dom cache. Fetch k \<notin> set tr)
        \<and> (\<forall>person\<in>set people'. \<forall>ps. posts person = Some ps \<longrightarrow>
              (\<forall>p\<in>set ps. url p \<in> dom cache \<longrightarrow> details p = cache (url p))))
   \<and> (\<forall>people' cache' tr.
        update_github_data get_user_info cache people = Inr (people', cache', tr) \<longrightarrow>
          map github people' = map github people
          \<and> (\<exists>us. set us \<inter> dom cache = {} \<and> tr = lookups get_user_info us)
          \<and> (\<forall>k\<in>dom cache. GetUserInfo k \<notin> set tr)
          \<and> (\<forall>person\<in>set people'. \<forall>k. github person = Some k \<longrightarrow> k \<in> dom cache
                \<longrightarrow> gh person = cache k))"
proof (intro conjI allI impI)
  obtain people' c' tr where r: "devto_people fetch (cache, []) people = (people', c', tr)"
    by (cases "devto_people fetch (cache, []) people") auto
  note spec = devto_people_spec[OF r]
  have le: "cache \<subseteq>\<^sub>m c'" using spec by blast
  have "\<forall>person\<in>set people'. \<forall>ps. posts person = Some ps \<longrightarrow>
          (\<forall>p\<in>set ps. url p \<in> dom cache \<longrightarrow> details p = cache (url p))"
  proof (intro ballI allI impI)
    fix person ps p
    assume "person \<in> set people'" "posts person = Some ps" "p \<in> set ps" "url p \<in> dom cache"
    then have "details p = c' (url p)" "c' (url p) = cache (url p)"
      using spec le by (blast, simp add: map_le_def)
    then show "details p = cache (url p)" by simp
  qed
  moreover have "map post_urls people' = map post_urls people"
    "\<exists>us. set us \<inter> dom cache = {} \<and> tr = fetches us"
    using spec by simp_all
  moreover from this have "\<forall>k\<in>dom cache. Fetch k \<notin> set tr"
    using no_call_for_cached(1) by blast
  ultimately show "case update_devto_posts fetch cache people of
      (people', cache', tr) \<Rightarrow>
        map post_urls people' = map post_urls people
        \<and> (\<exists>us. set us \<inter> dom cache = {} \<and> tr = fetches us)
        \<and> (\<forall>k\<in>dom cache. Fetch k \<notin> set tr)
        \<and> (\<forall>person\<in>set people'. \<forall>ps. posts person = Some ps \<longrightarrow>
              (\<forall>p\<in>set ps. url p \<in> dom cache \<longrightarrow> details p = cache (url p)))"
    by (simp add: update_devto_posts_def r)
next
  fix people' cache' tr
  assume "update_github_data get_user_info cache people = Inr (people', cache', tr)"
  then have r: "github_people get_user_info (cache, []) people = Inr (people', cache', tr)"
    by (simp add: update_github_data_def)
  note spec = github_people_spec[OF r]
  show "map github people' = map github people" using spec by blast
  show us: "\<exists>us. set us \<inter> dom cache = {} \<and> tr = lookups get_user_info us"
    using spec by simp
  show "\<forall>k\<in>dom cache. GetUserInfo k \<notin> set tr"
    using us no_call_for_cached(2) by blast
  show "\<forall>person\<in>set people'. \<forall>k. github person = Some k \<longrightarrow> k \<in> dom cache
          \<longrightarrow> gh person = cache k"
    using spec by blast
qed

theorem cached_keys_not_fetched_witness:
  "update_devto_posts (\<lambda>u. Null) [''https://dev.to/a/p'' \<mapsto> Obj [(''title'', ''T'')]]
     [\<lparr>name = Some ''A'', github = Some ''a'',
       posts = Some [\<lparr>url = ''https://dev.to/a/p'', title = ''T'', published_at = ''2023-01-01'',
                       details = None\<rparr>],
       projects = (None :: string list option), gh = None\<rparr>]
   = ([\<lparr>name = Some ''A'', github = Some ''a'',
        posts = Some [\<lparr>url = ''https://dev.to/a/p'', title = ''T'', published_at = ''2023-01-01'',
                        details = Some (Obj [(''title'', ''T'')])\<rparr>],
        projects = None, gh = None\<rparr>],
      [''https://dev.to/a/p'' \<mapsto> Obj [(''title'', ''T'')]], [])
   \<and> update_github_data (\<lambda>u. Null) [''a'' \<mapsto> Obj [(''login'', ''a'')]]
       [\<lparr>name = Some ''A'', github = Some ''a'', posts = None,
         projects = (None :: string list option), gh = None\<rparr>]
   = Inr ([\<lparr>name = Some ''A'', github = Some ''a'', posts = None, projects = None,
             gh = Some (Obj [(''login'', ''a'')])\<rparr>],
          [''a'' \<mapsto> Obj [(''login'', ''a'')]], [])"
  using cached_keys_not_fetched[where fetch = "\<lambda>u. Null"
      and cache = "[''https://dev.to/a/p'' \<mapsto> Obj [(''title'', ''T'')]]"
      and people = "[\<lparr>name = Some ''A'', github = Some ''a'',
       posts = Some [\<lparr>url = ''https://dev.to/a/p'', title = ''T'', published_at = ''2023-01-01'',
                       details = None\<rparr>],
       projects = (None :: string list option), gh = None\<rparr>]"
      and get_user_info = "\<lambda>u. Null"]
  by (simp add: update_devto_posts_def update_github_data_def devto_page_def github_person_def)

text \<open>
  A lookup that finds nothing: \<open>k\<close> is not a key of the cache and
  \<^verbatim>\<open>get_user_info(k)\<close> is falsy. The record is returned as it is, the cache is
  unchanged and the only event is the lookup, whatever the trace before it.
\<close>

lemma github_person_miss:
  assumes "github person = Some k" "c k = None" "\<not> truthy (g k)"
  shows "github_person g (c, tr) person = Inr (person, c, tr @ [GetUserInfo k])"
  using assms by (simp add: github_person_def)

lemma github_person_other:
  assumes "github person = Some i" "i \<noteq> k" "c k = None"
  shows "\<exists>person' c' ev.
           (\<forall>tr. github_person g (c, tr) person = Inr (person', c', tr @ ev))
           \<and> github person' = Some i \<and> c' k = None
           \<and> filter (\<lambda>e. e \<noteq> GetUserInfo k) ev = ev"
proof (cases "c i")
  case (Some v)
  then have "\<forall>tr. github_person g (c, tr) person = Inr (person\<lparr>gh := Some v\<rparr>, c, tr @ [])"
    using assms by (simp add: github_person_def)
  then show ?thesis using assms by (intro exI[of _ "person\<lparr>gh := Some v\<rparr>"] exI[of _ c] exI[of _ "[]"]) simp
next
  case None
  show ?thesis
  proof (cases "truthy (g i)")
    case True
    then have "\<forall>tr. github_person g (c, tr) person
                 = Inr (person\<lparr>gh := Some (g i)\<rparr>, c(i \<mapsto> g i), tr @ [GetUserInfo i, Sleep])"
      using assms None by (simp add: github_person_def Let_def)
    then show ?thesis using assms
      by (intro exI[of _ "person\<lparr>gh := Some (g i)\<rparr>"] exI[of _ "c(i \<mapsto> g i)"]
            exI[of _ "[GetUserInfo i, Sleep]"]) simp
  next
    case False
    then have "\<forall>tr. github_person g (c, tr) person = Inr (person, c, tr @ [GetUserInfo i])"
      using assms None by (simp add: github_person_def)
    then show ?thesis using assms
      by (intro exI[of _ person] exI[of _ c] exI[of _ "[GetUserInfo i]"]) simp
  qed
qed

lemma github_people_miss:
  assumes "list_all (\<lambda>person. github person \<noteq> None) people" "c k = None" "\<not> truthy (g k)"
  shows "\<exists>people' c' ev.
           (\<forall>tr. github_people g (c, tr) people = Inr (people', c', tr @ ev))
           \<and> length people' = length people
           \<and> (\<forall>i<length people. github (people ! i) = Some k \<longrightarrow> people' ! i = people ! i)
           \<and> c' k = None
           \<and> (\<forall>tr. github_people g (c, tr) (filter (\<lambda>person. github person \<noteq> Some k) people)
                 = Inr (filter (\<lambda>person. github person \<noteq> Some k) people', c',
                        tr @ filter (\<lambda>e. e \<noteq> GetUserInfo k) ev))"
  using assms
proof (induction people arbitrary: c)
  case Nil
  show ?case by (intro exI[of _ "[]"] exI[of _ c]) (simp add: Nil)
next
  case (Cons person people)
  then obtain i where i: "github person = Some i" by auto
  have rest: "list_all (\<lambda>person. github person \<noteq> None) people" using Cons.prems by simp
  show ?case
  proof (cases "i = k")
    case True
    have step: "github_person g (c, tr) person = Inr (person, c, tr @ [GetUserInfo k])" for tr
      using i True Cons.prems by (simp add: github_person_miss)
    from Cons.IH[of c] rest Cons.prems(2,3) obtain people2 c' ev where
      ih: "\<forall>tr. github_people g (c, tr) people = Inr (people2, c', tr @ ev)"
        "length people2 = length people"
        "\<forall>j<length people. github (people ! j) = Some k \<longrightarrow> people2 ! j = people ! j"
        "c' k = None"
        "\<forall>tr. github_people g (c, tr) (filter (\<lambda>person. github person \<noteq> Some k) people)
                 = Inr (filter (\<lambda>person. github person \<noteq> Some k) people2, c',
                        tr @ filter (\<lambda>e. e \<noteq> GetUserInfo k) ev)"
      by blast
    have run: "\<forall>tr. github_people g (c, tr) (person # people)
                 = Inr (person # people2, c', tr @ GetUserInfo k # ev)"
      using step ih(1) by simp
    have nth: "\<forall>j<length (person # people). github ((person # people) ! j) = Some k
                 \<longrightarrow> (person # people2) ! j = (person # people) ! j"
      using ih(3) by (auto simp: nth_Cons split: nat.splits)
    have filt: "\<forall>tr. github_people g (c, tr)
                   (filter (\<lambda>person. github person \<noteq> Some k) (person # people))
                 = Inr (filter (\<lambda>person. github person \<noteq> Some k) (person # people2), c',
                        tr @ filter (\<lambda>e. e \<noteq> GetUserInfo k) (GetUserInfo k # ev))"
      using ih(5) i True by simp
    show ?thesis
      using run ih(2) nth ih(4) filt
      by (intro exI[of _ "person # people2"] exI[of _ c'] exI[of _ "GetUserInfo k # ev"]) simp
  next
    case False
    from github_person_other[of person i k c g] i False Cons.prems(2) obtain p1 c1 ev1 where
      step: "\<forall>tr. github_person g (c, tr) person = Inr (p1, c1, tr @ ev1)"
        "github p1 = Some i" "c1 k = None" "filter (\<lambda>e. e \<noteq> GetUserInfo k) ev1 = ev1"
      by blast
    from Cons.IH[of c1] rest step(3) Cons.prems(3) obtain people2 c' ev where
      ih: "\<forall>tr. github_people g (c1, tr) people = Inr (people2, c', tr @ ev)"
        "length people2 = length people"
        "\<forall>j<length people. github (people ! j) = Some k \<longrightarrow> people2 ! j = people ! j"
        "c' k = None"
        "\<forall>tr. github_people g (c1, tr) (filter (\<lambda>person. github person \<noteq> Some k) people)
                 = Inr (filter (\<lambda>person. github person \<noteq> Some k) people2, c',
                        tr @ filter (\<lambda>e. e \<noteq> GetUserInfo k) ev)"
      by blast
    have run: "\<forall>tr. github_people g (c, tr) (person # people)
                 = Inr (p1 # people2, c', tr @ ev1 @ ev)"
      using step(1) ih(1) by simp
    have nth: "\<forall>j<length (person # people). github ((person # people) ! j) = Some k
                 \<longrightarrow> (p1 # people2) ! j = (person # people) ! j"
      using ih(3) i False by (auto simp: nth_Cons split: nat.splits)
    have filt: "\<forall>tr. github_people g (c, tr)
                   (filter (\<lambda>person. github person \<noteq> Some k) (person # people))
                 = Inr (filter (\<lambda>person. github person \<noteq> Some k) (p1 # people2), c',
                        tr @ filter (\<lambda>e. e \<noteq> GetUserInfo k) (ev1 @ ev))"
      using step ih(5) i False by simp
    show ?thesis
      using run ih(2) nth ih(4) filt
      by (intro exI[of _ "p1 # people2"] exI[of _ c'] exI[of _ "ev1 @ ev"]) simp
  qed
qed

text \<open>
  C9. When \<^verbatim>\<open>get_user_info\<close> finds nothing for the identifier \<open>k\<close>, which is not in
  the cache, the run does not fail (every record has its \<^verbatim>\<open>github\<close> key): it returns,
  every record with the identifier \<open>k\<close> is in the result as it was in the input (no
  \<^verbatim>\<open>gh\<close> attached), \<open>k\<close> is not added to the cache, and the other records are
  processed as if the records with the identifier \<open>k\<close> were not there: a run without
  them gives the same records, the same cache, and the same trace but for the lookups of
  \<open>k\<close>, so no pause belongs to these records.
\<close>

theorem lookup_miss_is_skipped:
  assumes "list_all (\<lambda>person. github person \<noteq> None) people"
    and "k \<notin> dom cache" and "\<not> truthy (get_user_info k)"
  shows "\<exists>people' cache' tr.
           update_github_data get_user_info cache people = Inr (people', cache', tr)
           \<and> length people' = length people
           \<and> (\<forall>i<length people. github (people ! i) = Some k \<longrightarrow> people' ! i = people ! i)
           \<and> k \<notin> dom cache'
           \<and> update_github_data get_user_info cache
                 (filter (\<lambda>person. github person \<noteq> Some k) people)
               = Inr (filter (\<lambda>person. github person \<noteq> Some k) people', cache',
                      filter (\<lambda>e. e \<noteq> GetUserInfo k) tr)"
proof -
  have "cache k = None" using assms(2) by (simp add: domIff)
  from github_people_miss[of people cache k get_user_info] assms(1) this assms(3)
  obtain people' c' ev where
    "\<forall>tr. github_people get_user_info (cache, tr) people = Inr (people', c', tr @ ev)"
    "length people' = length people"
    "\<forall>i<length people. github (people ! i) = Some k \<longrightarrow> people' ! i = people ! i"
    "c' k = None"
    "\<forall>tr. github_people get_user_info (cache, tr)
            (filter (\<lambda>person. github person \<noteq> Some k) people)
          = Inr (filter (\<lambda>person. github person \<noteq> Some k) people', c',
                 tr @ filter (\<lambda>e. e \<noteq> GetUserInfo k) ev)"
    by blast
  then show ?thesis
    by (intro exI[of _ people'] exI[of _ c'] exI[of _ ev])
       (simp add: update_github_data_def domIff)
qed

theorem lookup_miss_is_skipped_witness:
  "update_github_data (\<lambda>u. if u = ''ghost'' then Null else Obj [(''login'', u)]) Map.empty
     [\<lparr>name = Some ''G'', github = Some ''ghost'', posts = None,
       projects = (None :: string list option), gh = None\<rparr>,
      \<lparr>name = Some ''A'', github = Some ''alice'', posts = None, projects = None, gh = None\<rparr>]
   = Inr ([\<lparr>name = Some ''G'', github = Some ''ghost'', posts = None, projects = None,
             gh = None\<rparr>,
           \<lparr>name = Some ''A'', github = Some ''alice'', posts = None, projects = None,
             gh = Some (Obj [(''login'', ''alice'')])\<rparr>],
          [''alice'' \<mapsto> Obj [(''login'', ''alice'')]],
          [GetUserInfo ''ghost'', GetUserInfo ''alice'', Sleep])"
  using lookup_miss_is_skipped[where people =
      "[\<lparr>name = Some ''G'', github = Some ''ghost'', posts = None,
         projects = (None :: string list option), gh = None\<rparr>,
        \<lparr>name = Some ''A'', github = Some ''alice'', posts = None, projects = None, gh = None\<rparr>]"
      and k = "''ghost''" and cache = Map.empty
      and get_user_info = "\<lambda>u. if u = ''ghost'' then Null else Obj [(''login'', u)]"]
  by (simp add: update_github_data_def github_person_def truthy_def Let_def)

section \<open>The post aggregator\<close>

subsection \<open>The reverse sort\<close>

lemma sort_reverse_set: "set (sort_reverse f xs) = set xs"
  by (simp add: sort_reverse_def)

lemma sort_reverse_length: "length (sort_reverse f xs) = length xs"
  by (simp add: sort_reverse_def)

lemma sort_reverse_descending:
  assumes "Suc i < length xs"
  shows "f (sort_reverse f xs ! Suc i) \<le> f (sort_reverse f xs ! i)"
proof -
  let ?ys = "map f (sort_reverse f xs)"
  have "sorted (rev ?ys)"
    by (simp add: sort_reverse_def rev_map)
  moreover have "Suc i < length ?ys" using assms by (simp add: sort_reverse_length)
  ultimately have "?ys ! Suc i \<le> ?ys ! i"
    using sorted_rev_iff_nth_Suc by blast
  then show ?thesis using assms by (simp add: sort_reverse_length)
qed

lemma sort_reverse_stable:
  "filter (\<lambda>x. f x = t) (sort_reverse f xs) = filter (\<lambda>x. f x = t) xs"
proof -
  have "filter (\<lambda>x. f x = t) (sort_reverse f xs)
          = rev (filter (\<lambda>x. f x = t) (sort_key f (rev xs)))"
    by (simp add: sort_reverse_def rev_filter)
  also have "\<dots> = rev (filter (\<lambda>x. f x = t) (rev xs))"
    by (simp only: sort_key_stable)
  also have "\<dots> = filter (\<lambda>x. f x = t) xs"
    by (simp add: rev_filter)
  finally show ?thesis .
qed

subsection \<open>The loops\<close>

lemma emit_Inl: "emit person p = Inl e \<longleftrightarrow> details p = None \<and> e = KeyError ''details''"
  by (auto simp: emit_def split: option.splits)

lemma collect_person_Inr:
  "collect_person person acc ps = Inr r \<longleftrightarrow>
     (\<exists>as. map (emit person) ps = map Inr as \<and> r = acc @ as)"
proof (induction ps arbitrary: acc)
  case Nil
  then show ?case by auto
next
  case (Cons p ps)
  show ?case
  proof (cases "emit person p")
    case (Inl e)
    then show ?thesis by (auto simp: map_eq_Cons_conv)
  next
    case (Inr a)
    then show ?thesis using Cons.IH[of "acc @ [a]"] by (auto simp: map_eq_Cons_conv)
  qed
qed

lemma collect_person_Inl:
  "collect_person person acc ps = Inl e \<longleftrightarrow>
     (\<exists>p\<in>set ps. details p = None) \<and> e = KeyError ''details''"
proof (induction ps arbitrary: acc)
  case Nil
  then show ?case by simp
next
  case (Cons p ps)
  show ?case
  proof (cases "emit person p")
    case (Inl e')
    then show ?thesis using emit_Inl[of person p e'] by auto
  next
    case (Inr a)
    then have "details p \<noteq> None" by (auto simp: emit_def split: option.splits)
    then show ?thesis using Inr Cons.IH[of "acc @ [a]"] by (simp del: not_None_eq)
  qed
qed

lemma collect_people_Inr:
  "collect_people acc people = Inr r \<longleftrightarrow>
     (\<exists>as. emissions people = map Inr as \<and> r = acc @ as)"
proof (induction people arbitrary: acc)
  case Nil
  then show ?case by (auto simp: emissions_def)
next
  case (Cons person people)
  show ?case
  proof (cases "posts person")
    case None
    then show ?thesis using Cons.IH[of acc] by (simp add: emissions_def)
  next
    case (Some ps)
    show ?thesis
    proof
      assume "collect_people acc (person # people) = Inr r"
      then obtain acc' where 1: "collect_person person acc ps = Inr acc'"
        and 2: "collect_people acc' people = Inr r"
        using Some by (auto split: sum.splits)
      from 1 obtain as1 where as1: "map (emit person) ps = map Inr as1" "acc' = acc @ as1"
        unfolding collect_person_Inr by blast
      from 2 obtain as2 where as2: "emissions people = map Inr as2" "r = acc' @ as2"
        unfolding Cons.IH by blast
      have "emissions (person # people) = map Inr (as1 @ as2)"
        using Some as1(1) as2(1) by (simp add: emissions_def)
      then show "\<exists>as. emissions (person # people) = map Inr as \<and> r = acc @ as"
        using as1(2) as2(2) by auto
    next
      assume "\<exists>as. emissions (person # people) = map Inr as \<and> r = acc @ as"
      then obtain as where as: "emissions (person # people) = map Inr as" "r = acc @ as"
        by blast
      then have "map (emit person) ps @ emissions people = map Inr as"
        using Some by (simp add: emissions_def)
      then obtain as1 as2 where split: "as = as1 @ as2"
        "map (emit person) ps = map Inr as1" "emissions people = map Inr as2"
        by (auto simp: append_eq_map_conv)
      have "collect_person person acc ps = Inr (acc @ as1)"
        unfolding collect_person_Inr using split(2) by blast
      moreover have "collect_people (acc @ as1) people = Inr r"
        unfolding Cons.IH using split as(2) by auto
      ultimately show "collect_people acc (person # people) = Inr r"
        using Some by simp
    qed
  qed
qed

lemma collect_people_Inl:
  "collect_people acc people = Inl e \<longleftrightarrow>
     (\<exists>person\<in>set people. \<exists>ps. posts person = Some ps \<and> (\<exists>p\<in>set ps. details p = None))
     \<and> e = KeyError ''details''"
proof (induction people arbitrary: acc)
  case Nil
  then show ?case by simp
next
  case (Cons person people)
  show ?case
  proof (cases "posts person")
    case None
    then show ?thesis using Cons.IH[of acc] by auto
  next
    case (Some ps)
    show ?thesis
    proof (cases "collect_person person acc ps")
      case (Inl e')
      then show ?thesis using Some collect_person_Inl[of person acc ps e'] by auto
    next
      case (Inr acc')
      have none: "\<not> (\<exists>p\<in>set ps. details p = None)"
      proof
        assume "\<exists>p\<in>set ps. details p = None"
        then have "collect_person person acc ps = Inl (KeyError ''details'')"
          unfolding collect_person_Inl by simp
        then show False using Inr by simp
      qed
      have "(\<exists>q\<in>set (person # people). \<exists>qs. posts q = Some qs \<and> (\<exists>p\<in>set qs. details p = None))
              \<longleftrightarrow> (\<exists>q\<in>set people. \<exists>qs. posts q = Some qs \<and> (\<exists>p\<in>set qs. details p = None))"
        using Some none by (auto simp del: not_None_eq)
      moreover have "collect_people acc (person # people) = collect_people acc' people"
        using Some Inr by simp
      ultimately show ?thesis using Cons.IH[of acc'] by (simp only:)
    qed
  qed
qed

lemma collect_posts_Inr:
  "collect_posts people = Inr out \<longleftrightarrow>
     (\<exists>ps. emissions people = map Inr ps \<and> list_all (\<lambda>a. sort_key_of a \<noteq> None) ps
            \<and> out = sort_reverse (\<lambda>a. the (sort_key_of a)) ps)"
proof (cases "collect_people [] people")
  case (Inl e)
  then have "\<not> (\<exists>as. emissions people = map Inr as)"
    using collect_people_Inr[of "[]" people] by auto
  then show ?thesis using Inl by (auto simp: collect_posts_def)
next
  case (Inr ps)
  then have "emissions people = map Inr ps"
    using collect_people_Inr[of "[]" people ps] by simp
  moreover have "inj (Inr :: 'a article \<Rightarrow> error + 'a article)" by (simp add: inj_def)
  ultimately have "emissions people = map Inr ps' \<longleftrightarrow> ps' = ps" for ps'
    by auto
  then show ?thesis using Inr by (auto simp: collect_posts_def)
qed

text \<open>
  C3. The list that \<^verbatim>\<open>collect_posts\<close> returns is sorted by \<^verbatim>\<open>published_at\<close>,
  descending: every element has the key, and of two adjacent elements the second one's
  timestamp is at most the first one's.
\<close>

theorem collect_posts_sorted:
  assumes "collect_posts people = Inr out" and "Suc i < length out"
  shows "\<exists>t1 t2. sort_key_of (out ! i) = Some t1 \<and> sort_key_of (out ! Suc i) = Some t2
                  \<and> t2 \<le> t1"
proof -
  let ?f = "\<lambda>a. the (sort_key_of a)"
  from assms(1) obtain ps where ps: "list_all (\<lambda>a. sort_key_of a \<noteq> None) ps"
    and out: "out = sort_reverse ?f ps"
    unfolding collect_posts_Inr by blast
  have len: "Suc i < length ps" using assms(2) out by (simp add: sort_reverse_length)
  have "set out = set ps" using out by (simp add: sort_reverse_set)
  then have keys: "\<forall>a\<in>set out. sort_key_of a \<noteq> None"
    using ps by (simp add: list_all_iff)
  have "out ! i \<in> set out" "out ! Suc i \<in> set out" using assms(2) by simp_all
  then obtain t1 t2 where t: "sort_key_of (out ! i) = Some t1" "sort_key_of (out ! Suc i) = Some t2"
    using keys by blast
  have "?f (out ! Suc i) \<le> ?f (out ! i)"
    unfolding out using len by (rule sort_reverse_descending)
  then have "t2 \<le> t1" using t by simp
  then show ?thesis using t by blast
qed

theorem collect_posts_sorted_witness:
  "collect_posts
     [\<lparr>name = Some ''A'', github = Some ''a'',
       posts = Some [\<lparr>url = ''u1'', title = ''older'', published_at = ''2023-01-01'',
                       details = Some Null\<rparr>,
                     \<lparr>url = ''u2'', title = ''newer'', published_at = ''2023-01-02'',
                       details = Some (Obj [(''published_at'', ''2023-01-02'')])\<rparr>],
       projects = (None :: string list option), gh = None\<rparr>]
   = Inr [\<lparr>entries = [(''published_at'', ''2023-01-02'')],
           author = \<lparr>name = Some ''A'', github = Some ''a'',
             posts = Some [\<lparr>url = ''u1'', title = ''older'', published_at = ''2023-01-01'',
                             details = Some Null\<rparr>,
                           \<lparr>url = ''u2'', title = ''newer'', published_at = ''2023-01-02'',
                             details = Some (Obj [(''published_at'', ''2023-01-02'')])\<rparr>],
             projects = None, gh = None\<rparr>\<rparr>,
          \<lparr>entries = [(''url'', ''u1''), (''title'', ''older''), (''description'', []),
                      (''published_at'', ''2023-01-01'')],
           author = \<lparr>name = Some ''A'', github = Some ''a'',
             posts = Some [\<lparr>url = ''u1'', title = ''older'', published_at = ''2023-01-01'',
                             details = Some Null\<rparr>,
                           \<lparr>url = ''u2'', title = ''newer'', published_at = ''2023-01-02'',
                             details = Some (Obj [(''published_at'', ''2023-01-02'')])\<rparr>],
             projects = None, gh = None\<rparr>\<rparr>]
   \<and> ''2023-01-01'' \<le> ''2023-01-02''"
proof -
  let ?person = "\<lparr>name = Some ''A'', github = Some ''a'',
       posts = Some [\<lparr>url = ''u1'', title = ''older'', published_at = ''2023-01-01'',
                       details = Some Null\<rparr>,
                     \<lparr>url = ''u2'', title = ''newer'', published_at = ''2023-01-02'',
                       details = Some (Obj [(''published_at'', ''2023-01-02'')])\<rparr>],
       projects = (None :: string list option), gh = None\<rparr>"
  let ?out = "[\<lparr>entries = [(''published_at'', ''2023-01-02'')], author = ?person\<rparr>,
          \<lparr>entries = [(''url'', ''u1''), (''title'', ''older''), (''description'', []),
                      (''published_at'', ''2023-01-01'')], author = ?person\<rparr>]"
  have le: "''2023-01-01'' \<le> ''2023-01-02''"
    by (simp add: less_eq_char_def less_char_def)
  have run: "collect_posts [?person] = Inr ?out"
    using le by (simp add: collect_posts_def emit_def truthy_def sort_key_of_def sort_reverse_def)
  from collect_posts_sorted[OF run, of 0]
  have "''2023-01-01'' \<le> ''2023-01-02''"
    by (simp add: sort_key_of_def)
  with run show ?thesis by simp
qed

text \<open>The scenario of the specification: the newer post comes first in the input too.\<close>

lemma collect_posts_two_days:
  "map (\<lambda>a. map_of (entries a) ''published_at'')
     (projr (collect_posts
       [\<lparr>name = Some ''A'', github = Some ''a'',
         posts = Some [\<lparr>url = ''u1'', title = ''t1'', published_at = ''2023-01-02'',
                         details = Some Null\<rparr>,
                       \<lparr>url = ''u2'', title = ''t2'', published_at = ''2023-01-01'',
                         details = Some Null\<rparr>],
         projects = (None :: string list option), gh = None\<rparr>]))
   = [Some ''2023-01-02'', Some ''2023-01-01'']"
  by (simp add: collect_posts_def emit_def truthy_def sort_key_of_def sort_reverse_def
        less_eq_char_def less_char_def)

text \<open>
  The specification says that two posts with the same timestamp come out in the reverse
  of their input order. They do not: here are two posts of one record with the same
  timestamp, and the list returned has them in the order of the input.
\<close>

theorem collect_posts_ties_counterexample:
  "collect_posts
     [\<lparr>name = Some ''A'', github = Some ''a'',
       posts = Some [\<lparr>url = ''u1'', title = ''first'', published_at = ''2023-01-01'',
                       details = Some Null\<rparr>,
                     \<lparr>url = ''u2'', title = ''second'', published_at = ''2023-01-01'',
                       details = Some Null\<rparr>],
       projects = (None :: string list option), gh = None\<rparr>]
   = Inr [\<lparr>entries = [(''url'', ''u1''), (''title'', ''first''), (''description'', []),
                      (''published_at'', ''2023-01-01'')],
           author = \<lparr>name = Some ''A'', github = Some ''a'',
             posts = Some [\<lparr>url = ''u1'', title = ''first'', published_at = ''2023-01-01'',
                             details = Some Null\<rparr>,
                           \<lparr>url = ''u2'', title = ''second'', published_at = ''2023-01-01'',
                             details = Some Null\<rparr>],
             projects = None, gh = None\<rparr>\<rparr>,
          \<lparr>entries = [(''url'', ''u2''), (''title'', ''second''), (''description'', []),
                      (''published_at'', ''2023-01-01'')],
           author = \<lparr>name = Some ''A'', github = Some ''a'',
             posts = Some [\<lparr>url = ''u1'', title = ''first'', published_at = ''2023-01-01'',
                             details = Some Null\<rparr>,
                           \<lparr>url = ''u2'', title = ''second'', published_at = ''2023-01-01'',
                             details = Some Null\<rparr>],
             projects = None, gh = None\<rparr>\<rparr>]"
  by (simp add: collect_posts_def emit_def truthy_def sort_key_of_def sort_reverse_def)

text \<open>
  C4, amended. The reverse sort of Python is stable, so posts with equal timestamps keep
  their input order: for every timestamp, the articles with that timestamp stand in the
  returned list in the order in which the loops emitted them, which is the order of the
  input.
\<close>

theorem collect_posts_stable:
  assumes "collect_posts people = Inr out"
  shows "\<exists>ps. emissions people = map Inr ps
              \<and> (\<forall>t. filter (\<lambda>a. sort_key_of a = Some t) out
                      = filter (\<lambda>a. sort_key_of a = Some t) ps)"
proof -
  let ?f = "\<lambda>a. the (sort_key_of a)"
  from assms obtain ps where em: "emissions people = map Inr ps"
    and keys: "list_all (\<lambda>a. sort_key_of a \<noteq> None) ps"
    and out: "out = sort_reverse ?f ps"
    unfolding collect_posts_Inr by blast
  have same: "sort_key_of a = Some t \<longleftrightarrow> ?f a = t" if "a \<in> set ps" for a t
    using that keys by (auto simp: list_all_iff)
  have "filter (\<lambda>a. sort_key_of a = Some t) out = filter (\<lambda>a. sort_key_of a = Some t) ps" for t
  proof -
    have "filter (\<lambda>a. sort_key_of a = Some t) out = filter (\<lambda>a. ?f a = t) out"
      using same out by (intro filter_cong) (simp_all add: sort_reverse_set)
    also have "\<dots> = filter (\<lambda>a. ?f a = t) ps"
      unfolding out by (rule sort_reverse_stable)
    also have "\<dots> = filter (\<lambda>a. sort_key_of a = Some t) ps"
      using same by (intro filter_cong) simp_all
    finally show ?thesis .
  qed
  then show ?thesis using em by blast
qed

theorem collect_posts_stable_witness:
  "filter (\<lambda>a. sort_key_of a = Some ''2023-01-01'')
     (projr (collect_posts
       [\<lparr>name = Some ''A'', github = Some ''a'',
         posts = Some [\<lparr>url = ''u1'', title = ''first'', published_at = ''2023-01-01'',
                         details = Some Null\<rparr>,
                       \<lparr>url = ''u2'', title = ''between'', published_at = ''2023-01-02'',
                         details = Some Null\<rparr>,
                       \<lparr>url = ''u3'', title = ''second'', published_at = ''2023-01-01'',
                         details = Some Null\<rparr>],
         projects = (None :: string list option), gh = None\<rparr>]))
   = filter (\<lambda>a. sort_key_of a = Some ''2023-01-01'')
      (map projr (emissions
       [\<lparr>name = Some ''A'', github = Some ''a'',
         posts = Some [\<lparr>url = ''u1'', title = ''first'', published_at = ''2023-01-01'',
                         details = Some Null\<rparr>,
                       \<lparr>url = ''u2'', title = ''between'', published_at = ''2023-01-02'',
                         details = Some Null\<rparr>,
                       \<lparr>url = ''u3'', title = ''second'', published_at = ''2023-01-01'',
                         details = Some Null\<rparr>],
         projects = (None :: string list option), gh = None\<rparr>]))"
proof -
  let ?people = "[\<lparr>name = Some ''A'', github = Some ''a'',
         posts = Some [\<lparr>url = ''u1'', title = ''first'', published_at = ''2023-01-01'',
                         details = Some Null\<rparr>,
                       \<lparr>url = ''u2'', title = ''between'', published_at = ''2023-01-02'',
                         details = Some Null\<rparr>,
                       \<lparr>url = ''u3'', title = ''second'', published_at = ''2023-01-01'',
                         details = Some Null\<rparr>],
         projects = (None :: string list option), gh = None\<rparr>]"
  have "\<exists>out. collect_posts ?people = Inr out"
    by (simp add: collect_posts_def emit_def truthy_def sort_key_of_def)
  then obtain out where out: "collect_posts ?people = Inr out" by blast
  from collect_posts_stable[OF out] obtain ps where
    "emissions ?people = map Inr ps"
    "filter (\<lambda>a. sort_key_of a = Some ''2023-01-01'') out
       = filter (\<lambda>a. sort_key_of a = Some ''2023-01-01'') ps"
    by blast
  moreover from this have "map projr (emissions ?people) = ps"
    by (simp add: comp_def)
  ultimately show ?thesis using out by simp
qed

text \<open>
  C10. \<^verbatim>\<open>collect_posts\<close> reads \<^verbatim>\<open>post['details']\<close> of every post: if some post of
  some record has no \<^verbatim>\<open>details\<close> key, it fails with the key error and takes no
  fallback. \<^verbatim>\<open>update_devto_posts\<close> gives every post of every record the key, so after
  it \<^verbatim>\<open>collect_posts\<close> does not fail in this way.
\<close>

theorem collect_posts_needs_details:
  "(\<forall>person ps p. person \<in> set people \<longrightarrow> posts person = Some ps \<longrightarrow> p \<in> set ps
        \<longrightarrow> details p = None \<longrightarrow> collect_posts people = Inl (KeyError ''details''))
   \<and> (\<forall>person\<in>set (fst (update_devto_posts fetch cache people)). \<forall>ps. posts person = Some ps
        \<longrightarrow> (\<forall>p\<in>set ps. details p \<noteq> None))
   \<and> collect_posts (fst (update_devto_posts fetch cache people)) \<noteq> Inl (KeyError ''details'')"
proof (intro conjI allI impI ballI)
  fix person ps p
  assume "person \<in> set people" "posts person = Some ps" "p \<in> set ps" "details p = None"
  then have "collect_people [] people = Inl (KeyError ''details'')"
    unfolding collect_people_Inl by blast
  then show "collect_posts people = Inl (KeyError ''details'')"
    by (simp add: collect_posts_def)
next
  fix person ps p
  assume "person \<in> set (fst (update_devto_posts fetch cache people))"
    "posts person = Some ps" "p \<in> set ps"
  then show "details p \<noteq> None" by (rule update_devto_posts_details)
next
  let ?people = "fst (update_devto_posts fetch cache people)"
  show "collect_posts ?people \<noteq> Inl (KeyError ''details'')"
  proof
    assume "collect_posts ?people = Inl (KeyError ''details'')"
    then have "collect_people [] ?people = Inl (KeyError ''details'')"
      by (auto simp: collect_posts_def split: sum.splits if_splits)
    then obtain person ps p where "person \<in> set ?people" "posts person = Some ps"
      "p \<in> set ps" "details p = None"
      unfolding collect_people_Inl by blast
    then show False using update_devto_posts_details by blast
  qed
qed

theorem collect_posts_needs_details_witness:
  "collect_posts
     [\<lparr>name = Some ''A'', github = Some ''a'',
       posts = Some [\<lparr>url = ''u1'', title = ''t1'', published_at = ''2023-01-01'',
                       details = None\<rparr>],
       projects = (None :: string list option), gh = None\<rparr>]
     = Inl (KeyError ''details'')
   \<and> map post_details (fst (update_devto_posts (\<lambda>u. Null) Map.empty
       [\<lparr>name = Some ''A'', github = Some ''a'',
         posts = Some [\<lparr>url = ''u1'', title = ''t1'', published_at = ''2023-01-01'',
                         details = None\<rparr>],
         projects = (None :: string list option), gh = None\<rparr>]))
     = [Some [Some Null]]"
proof
  let ?p = "\<lparr>url = ''u1'', title = ''t1'', published_at = ''2023-01-01'', details = None\<rparr>"
  let ?person = "\<lparr>name = Some ''A'', github = Some ''a'', posts = Some [?p],
       projects = (None :: string list option), gh = None\<rparr>"
  have "?person \<in> set [?person]" "posts ?person = Some [?p]" "?p \<in> set [?p]" "details ?p = None"
    by simp_all
  then show "collect_posts [?person] = Inl (KeyError ''details'')"
    using collect_posts_needs_details[where people = "[?person]"] by blast
  show "map post_details (fst (update_devto_posts (\<lambda>u. Null) Map.empty [?person]))
     = [Some [Some Null]]"
    by (simp add: update_devto_posts_def devto_page_def post_details_def)
qed

section \<open>The record loader\<close>

lemma stem_json: "stem (ident @ ''.json'') = ident"
  by (simp add: stem_def)

lemma endswith_json: "endswith (ident @ ''.json'') ''.json''"
  by (simp add: endswith_def)

lemma json_not_gitkeep: "ident @ ''.json'' \<noteq> ''.gitkeep''"
proof
  assume "ident @ ''.json'' = ''.gitkeep''"
  then have "rev (ident @ ''.json'') = rev ''.gitkeep''" by simp
  then show False by simp
qed

lemma read_files_accepted:
  assumes "accepted load f"
  shows "read_files load people (f # rest)
           = read_files load (people @ (if f = ''.gitkeep'' then [] else [load f])) rest"
  using assms by (auto simp: accepted_def)

lemma read_files_rejected:
  assumes "\<not> accepted load f"
  shows "\<exists>e. read_files load people (f # rest) = Inl e"
  using assms by (auto simp: accepted_def Let_def split: option.splits)

lemma read_files_Inr:
  "read_files load acc listing = Inr people \<longleftrightarrow>
     list_all (accepted load) listing
     \<and> people = acc @ map load (filter (\<lambda>f. f \<noteq> ''.gitkeep'') listing)"
proof (induction listing arbitrary: acc)
  case Nil
  then show ?case by auto
next
  case (Cons f rest)
  show ?case
  proof (cases "accepted load f")
    case True
    then show ?thesis
      using Cons.IH[of "acc @ (if f = ''.gitkeep'' then [] else [load f])"]
      by (simp only: read_files_accepted[OF True]) auto
  next
    case False
    then show ?thesis using read_files_rejected[OF False, of acc rest] by auto
  qed
qed

text \<open>The records of a successful load all have their \<^verbatim>\<open>github\<close> key.\<close>

lemma read_json_files_github:
  assumes "read_json_files listing load = Inr people"
  shows "list_all (\<lambda>person. github person \<noteq> None) people"
proof -
  from assms have acc: "list_all (accepted load) listing"
    and people: "people = map load (filter (\<lambda>f. f \<noteq> ''.gitkeep'') listing)"
    unfolding read_json_files_def read_files_Inr by simp_all
  show ?thesis
    unfolding people list_all_iff using acc by (auto simp: list_all_iff accepted_def)
qed

text \<open>
  C6. A record loaded from the file \<^verbatim>\<open><id>.json\<close> has an identifier whose lower-case
  form is \<open>id\<close>: if the directory lists the file and the load succeeds, the file's
  record is among the records returned, has the \<^verbatim>\<open>github\<close> key, and its value lowered
  is \<open>id\<close>. If the key is missing or its lowered value differs from \<open>id\<close>, the load
  fails.
\<close>

theorem loaded_identifier_is_filename:
  assumes "ident @ ''.json'' \<in> set listing"
  shows "(\<forall>people. read_json_files listing load = Inr people \<longrightarrow>
            load (ident @ ''.json'') \<in> set people
            \<and> (\<exists>g. github (load (ident @ ''.json'')) = Some g \<and> lower g = ident))
       \<and> ((\<forall>g. github (load (ident @ ''.json'')) = Some g \<longrightarrow> lower g \<noteq> ident)
            \<longrightarrow> (\<exists>e. read_json_files listing load = Inl e))"
proof -
  let ?f = "ident @ ''.json''"
  have loaded: "load ?f \<in> set people \<and> (\<exists>g. github (load ?f) = Some g \<and> lower g = ident)"
    if "read_json_files listing load = Inr people" for people
  proof -
    from that have acc: "list_all (accepted load) listing"
      and people: "people = map load (filter (\<lambda>f. f \<noteq> ''.gitkeep'') listing)"
      unfolding read_json_files_def read_files_Inr by simp_all
    have "accepted load ?f" using acc assms by (simp add: list_all_iff)
    then have "\<exists>g. github (load ?f) = Some g \<and> lower g = ident"
      using json_not_gitkeep[of ident] by (simp add: accepted_def stem_json)
    moreover have "load ?f \<in> set people"
      unfolding people using assms json_not_gitkeep[of ident] by auto
    ultimately show ?thesis by simp
  qed
  have "\<exists>e. read_json_files listing load = Inl e"
    if "\<forall>g. github (load ?f) = Some g \<longrightarrow> lower g \<noteq> ident"
  proof (cases "read_json_files listing load")
    case (Inl e)
    then show ?thesis by simp
  next
    case (Inr people)
    then show ?thesis using loaded[of people] that by auto
  qed
  then show ?thesis using loaded by blast
qed

lemma lower_examples:
  "lower ''Alice'' = ''alice''" "lower ''bob'' = ''bob''" "lower ''alice.json'' = ''alice.json''"
  by code_simp+

theorem loaded_identifier_is_filename_witness:
  "read_json_files [''.gitkeep'', ''alice.json'']
     (\<lambda>f. \<lparr>name = Some ''Alice'', github = Some ''Alice'', posts = None,
             projects = (None :: string list option), gh = None\<rparr>)
   = Inr [\<lparr>name = Some ''Alice'', github = Some ''Alice'', posts = None, projects = None,
            gh = None\<rparr>]
   \<and> lower ''Alice'' = ''alice''
   \<and> read_json_files [''.gitkeep'', ''alice.json'']
       (\<lambda>f. \<lparr>name = Some ''Bob'', github = Some ''bob'', posts = None,
               projects = (None :: string list option), gh = None\<rparr>)
     = Inl (Exception (''value of github fields '' @ [quote] @ ''bob'' @ [quote]
              @ '' is not the same as the filename '' @ [quote] @ ''alice.json'' @ [quote]))"
proof (intro conjI)
  let ?alice = "\<lambda>f :: string. \<lparr>name = Some ''Alice'', github = Some ''Alice'', posts = None,
             projects = (None :: string list option), gh = None\<rparr>"
  let ?bob = "\<lambda>f :: string. \<lparr>name = Some ''Bob'', github = Some ''bob'', posts = None,
               projects = (None :: string list option), gh = None\<rparr>"
  have listed: "''alice'' @ ''.json'' \<in> set [''.gitkeep'', ''alice.json'']" by simp
  show run: "read_json_files [''.gitkeep'', ''alice.json''] ?alice = Inr [?alice ''alice.json'']"
    by (simp add: read_json_files_def endswith_def stem_def lower_examples)
  from loaded_identifier_is_filename[OF listed, of ?alice] run
  show "lower ''Alice'' = ''alice''" by simp
  show "read_json_files [''.gitkeep'', ''alice.json''] ?bob
     = Inl (Exception (''value of github fields '' @ [quote] @ ''bob'' @ [quote]
              @ '' is not the same as the filename '' @ [quote] @ ''alice.json'' @ [quote]))"
    by (simp add: read_json_files_def endswith_def stem_def lower_examples)
qed

text \<open>
  The four ways in which the first entry of a listing fails. The three later ones carry
  the name of the file in their message; the first does not.
\<close>

lemma read_json_files_extension:
  assumes "f \<noteq> ''.gitkeep''" "\<not> endswith f ''.json''"
  shows "read_json_files (f # rest) load = Inl (JsonError ''file does not end with .json'')"
  using assms by (simp add: read_json_files_def)

lemma read_json_files_case:
  assumes "endswith f ''.json''" "f \<noteq> lower f"
  shows "read_json_files (f # rest) load
           = Inl (Exception (''filename '' @ f @ '' should be all lower-case''))"
proof -
  have "f \<noteq> ''.gitkeep''" using assms(1) by (auto simp: endswith_def)
  then show ?thesis using assms by (simp add: read_json_files_def)
qed

lemma read_json_files_missing:
  assumes "endswith f ''.json''" "lower f = f" "github (load f) = None"
  shows "read_json_files (f # rest) load
           = Inl (Exception (''github field is missing from '' @ f))"
proof -
  have "f \<noteq> ''.gitkeep''" using assms(1) by (auto simp: endswith_def)
  then show ?thesis using assms by (simp add: read_json_files_def)
qed

lemma read_json_files_mismatch:
  assumes "endswith f ''.json''" "lower f = f" "github (load f) = Some g" "lower g \<noteq> stem f"
  shows "read_json_files (f # rest) load
           = Inl (Exception (''value of github fields '' @ [quote] @ g @ [quote]
                    @ '' is not the same as the filename '' @ [quote] @ f @ [quote]))"
proof -
  have "f \<noteq> ''.gitkeep''" using assms(1) by (auto simp: endswith_def)
  then show ?thesis using assms by (simp add: read_json_files_def)
qed

text \<open>Entries that pass are skipped over: the first entry that does not pass decides.\<close>

lemma read_files_prefix:
  assumes "list_all (accepted load) good"
  shows "\<exists>people'. read_files load people (good @ rest) = read_files load people' rest"
  using assms
proof (induction good arbitrary: people)
  case Nil
  then show ?case by auto
next
  case (Cons f good)
  then have f: "accepted load f" and good: "list_all (accepted load) good" by simp_all
  from Cons.IH[OF good] show ?case
    by (simp only: append_Cons read_files_accepted[OF f])
qed

text \<open>A file with a wrong extension or an upper-case letter makes the load fail.\<close>

lemma read_json_files_bad_name:
  assumes "f \<in> set listing" "f \<noteq> ''.gitkeep''" "\<not> endswith f ''.json'' \<or> f \<noteq> lower f"
  shows "\<exists>e. read_json_files listing load = Inl e"
proof (cases "read_json_files listing load")
  case (Inl e)
  then show ?thesis by simp
next
  case (Inr people)
  then have "list_all (accepted load) listing"
    unfolding read_json_files_def read_files_Inr by simp
  then have "accepted load f" using assms(1) by (simp add: list_all_iff)
  then show ?thesis using assms(2,3) by (auto simp: accepted_def)
qed

text \<open>
  C7. The claim: an entry without the extension \<^verbatim>\<open>.json\<close>, or with an upper-case
  letter, makes the load fail with an error whose message names the file. The load does
  fail (lemma \<open>read_json_files_bad_name\<close>), and the message for an upper-case letter
  names the file (lemma \<open>read_json_files_case\<close>), as the messages of the two identifier
  errors do. The message for a wrong extension does not: it is the same text for every
  file.
\<close>

theorem extension_error_omits_filename:
  "read_json_files [''README.md''] load = Inl (JsonError ''file does not end with .json'')
   \<and> read_json_files [''notes.txt'', ''alice.json''] load
       = Inl (JsonError ''file does not end with .json'')"
  by (simp add: read_json_files_def endswith_def)

section \<open>The README transform\<close>

subsection \<open>Substitution: helper lemmas\<close>

lemma pat_h1: "compile ''<h1>(.*?)</h1>'' = map Chr ''<h1>'' @ Lazy # map Chr ''</h1>''"
  by simp

lemma pat_h2: "compile ''<h2>'' = map Chr ''<h2>''"
  by simp

lemma matches_lit_only:
  "matches (map Chr lit) pos s =
     (if take (length lit) s = lit then Some ([], drop (length lit) s) else None)"
  using matches_lit[of lit "[]" pos s] by simp

lemma sub_from_match:
  assumes "matches ps pos s = Some (gs, rest)" "length rest < length s"
  shows "sub_from ps repl pos s = repl @ sub_from ps repl (pos + (length s - length rest)) rest"
  using assms by (subst sub_from.simps) simp

lemma sub_from_nomatch:
  assumes "matches ps pos (c # cs) = None"
  shows "sub_from ps repl pos (c # cs) = c # sub_from ps repl (Suc pos) cs"
  using assms by (subst sub_from.simps) simp

lemma sub_from_Nil:
  assumes "matches ps pos [] = None"
  shows "sub_from ps repl pos [] = []"
  using assms by (subst sub_from.simps) simp

text \<open>A pattern whose matches do not depend on the offset: neither do its substitutions.\<close>

lemma sub_from_pos:
  assumes "\<And>p p' s. matches ps p s = matches ps p' s"
  shows "sub_from ps repl pos s = sub_from ps repl pos' s"
proof (induction s arbitrary: pos pos' rule: length_induct)
  case (1 s)
  have m: "matches ps pos' s = matches ps pos s" by (rule assms)
  show ?case
  proof (cases "matches ps pos s")
    case None
    show ?thesis
    proof (cases s)
      case Nil
      then show ?thesis using None m by (simp add: sub_from_Nil)
    next
      case (Cons c cs)
      have "sub_from ps repl (Suc pos) cs = sub_from ps repl (Suc pos') cs"
        using 1 Cons by simp
      then show ?thesis using None m Cons by (simp add: sub_from_nomatch)
    qed
  next
    case (Some r)
    obtain gs rest where r: "r = (gs, rest)" by (cases r) auto
    show ?thesis
    proof (cases "length rest < length s")
      case True
      have "sub_from ps repl (pos + (length s - length rest)) rest
              = sub_from ps repl (pos' + (length s - length rest)) rest"
        using 1 True by simp
      then show ?thesis using Some r m True by (simp add: sub_from_match)
    next
      case False
      show ?thesis
      proof (cases s)
        case Nil
        then show ?thesis using Some r m False
          by (subst (1 2) sub_from.simps) simp
      next
        case (Cons c cs)
        have "sub_from ps repl (Suc pos) cs = sub_from ps repl (Suc pos') cs"
          using 1 Cons by simp
        then show ?thesis using Some r m False Cons
          by (subst (1 2) sub_from.simps) simp
      qed
    qed
  qed
qed

lemma sub_from_match_same:
  assumes "\<And>p p' s. matches ps p s = matches ps p' s"
    and "matches ps pos s = Some (gs, rest)" "length rest < length s"
  shows "sub_from ps repl pos s = repl @ sub_from ps repl pos rest"
proof -
  have "sub_from ps repl pos s
          = repl @ sub_from ps repl (pos + (length s - length rest)) rest"
    using assms(2,3) by (rule sub_from_match)
  also have "sub_from ps repl (pos + (length s - length rest)) rest = sub_from ps repl pos rest"
    using assms(1) by (rule sub_from_pos)
  finally show ?thesis .
qed

lemma sub_from_nomatch_same:
  assumes "\<And>p p' s. matches ps p s = matches ps p' s"
    and "matches ps pos (c # cs) = None"
  shows "sub_from ps repl pos (c # cs) = c # sub_from ps repl pos cs"
proof -
  have "sub_from ps repl pos (c # cs) = c # sub_from ps repl (Suc pos) cs"
    using assms(2) by (rule sub_from_nomatch)
  also have "sub_from ps repl (Suc pos) cs = sub_from ps repl pos cs"
    using assms(1) by (rule sub_from_pos)
  finally show ?thesis .
qed

text \<open>
  A needle whose first character does not come again in it: where it is a prefix of
  \<open>a @ needle @ b\<close> for a non-empty \<open>a\<close>, it is a prefix of \<open>a\<close> already.
\<close>

lemma prefix_no_straddle:
  assumes "c0 \<notin> set ns" "a \<noteq> []"
    and "take (Suc (length ns)) (a @ (c0 # ns) @ b) = c0 # ns"
  shows "take (Suc (length ns)) a = c0 # ns"
proof (cases "Suc (length ns) \<le> length a")
  case True
  then show ?thesis using assms(3) by simp
next
  case False
  let ?i = "length a"
  let ?S = "a @ (c0 # ns) @ b"
  have i: "0 < ?i" "?i < Suc (length ns)" using assms(2) False by simp_all
  have "take (Suc (length ns)) ?S ! ?i = ?S ! ?i"
    using i(2) by (rule nth_take)
  moreover have "?S ! ?i = c0" by simp
  ultimately have "(c0 # ns) ! ?i = c0" using assms(3) by simp
  moreover have "(c0 # ns) ! ?i \<in> set ns"
    using i by (cases ?i) simp_all
  ultimately show ?thesis using assms(1) by simp
qed

lemma occurs_iff:
  "occurs needle s \<longleftrightarrow> (\<exists>k\<le>length s. take (length needle) (drop k s) = needle)"
  unfolding occurs_def list_ex_iff set_upt
  by (simp only: Bex_def atLeastLessThan_iff less_Suc_eq_le) simp

lemma occurs_head: "\<not> occurs needle s \<Longrightarrow> take (length needle) s \<noteq> needle"
  unfolding occurs_iff by (metis drop0 le0)

lemma occurs_drop:
  "\<not> occurs needle s \<Longrightarrow> k \<le> length s \<Longrightarrow> take (length needle) (drop k s) \<noteq> needle"
  unfolding occurs_iff by blast

lemma occurs_tail: "\<not> occurs needle (c # s) \<Longrightarrow> \<not> occurs needle s"
proof -
  assume a: "\<not> occurs needle (c # s)"
  have "take (length needle) (drop k s) \<noteq> needle" if "k \<le> length s" for k
    using occurs_drop[OF a, of "Suc k"] that by simp
  then show ?thesis unfolding occurs_iff by blast
qed

subsection \<open>Literal patterns\<close>

lemma sub_lit_split:
  assumes "c0 \<notin> set ns"
  shows "sub_from (map Chr (c0 # ns)) repl pos (a @ (c0 # ns) @ b)
           = sub_from (map Chr (c0 # ns)) repl pos a @ repl
             @ sub_from (map Chr (c0 # ns)) repl pos b"
proof (induction a arbitrary: pos rule: length_induct)
  case (1 a)
  let ?lit = "c0 # ns"
  let ?ps = "map Chr ?lit"
  let ?n = "length ?lit"
  have indep: "matches ?ps p s = matches ?ps p' s" for p p' s
    by (simp only: matches_lit_only)
  show ?case
  proof (cases a)
    case Nil
    have "matches ?ps pos (?lit @ b) = Some ([], b)"
      by (simp only: matches_lit_only) simp
    then have "sub_from ?ps repl pos (?lit @ b) = repl @ sub_from ?ps repl pos b"
      by (intro sub_from_match_same[where gs = "[]"] indep) simp_all
    moreover have "sub_from ?ps repl pos [] = []"
      by (rule sub_from_Nil) (simp only: matches_lit_only, simp)
    ultimately show ?thesis using Nil by simp
  next
    case (Cons c cs)
    show ?thesis
    proof (cases "take ?n (a @ ?lit @ b) = ?lit")
      case True
      have "a \<noteq> []" using Cons by simp
      with assms True have ta: "take ?n a = ?lit"
        using prefix_no_straddle[of c0 ns a b] by simp
      then have a: "a = ?lit @ drop ?n a" by (metis append_take_drop_id)
      have short: "length (drop ?n a) < length a" using Cons by simp
      have m1: "matches ?ps pos (a @ ?lit @ b) = Some ([], drop ?n a @ ?lit @ b)"
        using True ta by (simp only: matches_lit_only) (simp add: Cons)
      have m2: "matches ?ps pos a = Some ([], drop ?n a)"
        using ta by (simp only: matches_lit_only) simp
      have e1: "sub_from ?ps repl pos (a @ ?lit @ b)
              = repl @ sub_from ?ps repl pos (drop ?n a @ ?lit @ b)"
        using short by (intro sub_from_match_same[OF indep m1]) simp
      have e2: "sub_from ?ps repl pos (drop ?n a @ ?lit @ b)
              = sub_from ?ps repl pos (drop ?n a) @ repl @ sub_from ?ps repl pos b"
        using 1 short by simp
      have e3: "sub_from ?ps repl pos a = repl @ sub_from ?ps repl pos (drop ?n a)"
        by (rule sub_from_match_same[OF indep m2 short])
      show ?thesis using e1 e2 e3 by simp
    next
      case False
      then have m1: "matches ?ps pos (c # cs @ ?lit @ b) = None"
        using Cons by (simp only: matches_lit_only) simp
      have "take ?n a \<noteq> ?lit"
      proof
        assume "take ?n a = ?lit"
        then have "length (take ?n a) = ?n" by simp
        then have "?n \<le> length a" by simp
        then have "take ?n (a @ ?lit @ b) = take ?n a" by simp
        then show False using False \<open>take ?n a = ?lit\<close> by simp
      qed
      then have m2: "matches ?ps pos (c # cs) = None"
        using Cons by (simp only: matches_lit_only) simp
      have e1: "sub_from ?ps repl pos (a @ ?lit @ b)
              = c # sub_from ?ps repl pos (cs @ ?lit @ b)"
        using sub_from_nomatch_same[OF indep m1, of repl] Cons by simp
      have e2: "sub_from ?ps repl pos (cs @ ?lit @ b)
              = sub_from ?ps repl pos cs @ repl @ sub_from ?ps repl pos b"
        using 1 Cons by simp
      have e3: "sub_from ?ps repl pos a = c # sub_from ?ps repl pos cs"
        using sub_from_nomatch_same[OF indep m2, of repl] Cons by simp
      show ?thesis using e1 e2 e3 by simp
    qed
  qed
qed

lemma tag_h2_split: "tag_h2 (a @ ''<h2>'' @ b) = tag_h2 a @ h2_title @ tag_h2 b"
  unfolding tag_h2_def re_sub_def pat_h2
  using sub_lit_split[of "CHR ''<''" "''h2>''" h2_title 0 a b] by simp

subsection \<open>The heading pattern\<close>

lemma first_some_skip:
  "(\<And>j. j \<in> set js \<Longrightarrow> f j = None) \<Longrightarrow> first_some (map f (js @ ks)) = first_some (map f ks)"
  by (induction js) auto

lemma upt_split:
  assumes "k \<le> n"
  shows "[0 ..< Suc n] = [0 ..< k] @ k # [Suc k ..< Suc n]"
proof -
  have "[0 ..< k + (Suc n - k)] = [0 ..< k] @ [k ..< k + (Suc n - k)]"
    by (rule upt_add_eq_append) simp
  moreover have "k + (Suc n - k) = Suc n" using assms by simp
  ultimately have "[0 ..< Suc n] = [0 ..< k] @ [k ..< Suc n]" by (simp only:)
  moreover have "[k ..< Suc n] = k # [Suc k ..< Suc n]"
    using assms by (intro upt_conv_Cons) simp
  ultimately show ?thesis by (simp only:)
qed

lemma Lazy_first:
  assumes "k \<le> length (takeWhile (\<lambda>x. x \<noteq> newline) s)"
    and "\<And>j. j < k \<Longrightarrow> matches ps (pos + j) (drop j s) = None"
    and "matches ps (pos + k) (drop k s) = Some (gs, rest)"
  shows "matches (Lazy # ps) pos s = Some (take k s # gs, rest)"
proof -
  let ?n = "length (takeWhile (\<lambda>x. x \<noteq> newline) s)"
  let ?f = "\<lambda>k. with_group (take k s) (matches ps (pos + k) (drop k s))"
  have "[0 ..< Suc ?n] = [0 ..< k] @ k # [Suc k ..< Suc ?n]"
    using assms(1) by (rule upt_split)
  moreover have "first_some (map ?f ([0 ..< k] @ k # [Suc k ..< Suc ?n]))
                   = first_some (map ?f (k # [Suc k ..< Suc ?n]))"
    by (rule first_some_skip) (simp add: assms(2))
  moreover have "?f k = Some (take k s # gs, rest)" by (simp add: assms(3))
  ultimately show ?thesis by (simp only: matches.simps list.map first_some.simps)
qed

lemma h1_indep: "matches h1_pattern p s = matches h1_pattern p' s"
  by (simp only: matches_lit matches.simps matches_lit_only)

lemma h1_no_match:
  "take (length ''<h1>'') s \<noteq> ''<h1>'' \<Longrightarrow> matches h1_pattern pos s = None"
  by (simp only: matches_lit if_False)

lemma h1_match:
  assumes "newline \<notin> set t" "\<not> occurs ''</h1>'' t"
  shows "matches h1_pattern pos (''<h1>'' @ t @ ''</h1>'' @ post) = Some ([t], post)"
proof -
  let ?s = "t @ ''</h1>'' @ post"
  have "takeWhile (\<lambda>x. x \<noteq> newline) ?s = t @ takeWhile (\<lambda>x. x \<noteq> newline) (''</h1>'' @ post)"
    using assms(1) by (intro takeWhile_append2) auto
  then have k: "length t \<le> length (takeWhile (\<lambda>x. x \<noteq> newline) ?s)" by simp
  have before: "matches (map Chr ''</h1>'') (p + j) (drop j ?s) = None" if j: "j < length t" for j p
  proof -
    have "take (length ''</h1>'') (drop j ?s) \<noteq> ''</h1>''"
    proof
      assume eq: "take (length ''</h1>'') (drop j ?s) = ''</h1>''"
      have "take (Suc (length ''/h1>'')) (drop j t) = CHR ''<'' # ''/h1>''"
      proof (rule prefix_no_straddle)
        show "CHR ''<'' \<notin> set ''/h1>''" by simp
        show "drop j t \<noteq> []" using j by simp
        show "take (Suc (length ''/h1>'')) (drop j t @ (CHR ''<'' # ''/h1>'') @ post)
                = CHR ''<'' # ''/h1>''"
          using eq j by simp
      qed
      moreover have "take (length ''</h1>'') (drop j t) \<noteq> ''</h1>''"
        using assms(2) j by (intro occurs_drop) simp_all
      ultimately show False by simp
    qed
    then show ?thesis by (simp only: matches_lit_only if_False)
  qed
  have at: "matches (map Chr ''</h1>'') (p + length t) (drop (length t) ?s) = Some ([], post)" for p
    by simp
  have "matches (Lazy # map Chr ''</h1>'') (pos + length ''<h1>'') ?s
          = Some (take (length t) ?s # [], post)"
    using k before at by (rule Lazy_first)
  then show ?thesis by (simp only: matches_lit) simp
qed

lemma strip_scan:
  assumes "\<not> occurs ''<h1>'' pre"
  shows "sub_from h1_pattern repl pos (pre @ ''<h1>'' @ r)
           = pre @ sub_from h1_pattern repl pos (''<h1>'' @ r)"
  using assms
proof (induction pre)
  case Nil
  then show ?case by simp
next
  case (Cons c pre)
  have "take (length ''<h1>'') (c # pre @ ''<h1>'' @ r) \<noteq> ''<h1>''"
  proof
    assume eq: "take (length ''<h1>'') (c # pre @ ''<h1>'' @ r) = ''<h1>''"
    have "take (Suc (length ''h1>'')) (c # pre) = CHR ''<'' # ''h1>''"
    proof (rule prefix_no_straddle)
      show "CHR ''<'' \<notin> set ''h1>''" by simp
      show "c # pre \<noteq> []" by simp
      show "take (Suc (length ''h1>'')) ((c # pre) @ (CHR ''<'' # ''h1>'') @ r)
              = CHR ''<'' # ''h1>''"
        using eq by simp
    qed
    moreover have "take (length ''<h1>'') (c # pre) \<noteq> ''<h1>''"
      using Cons.prems by (rule occurs_head)
    ultimately show False by simp
  qed
  then have "matches h1_pattern pos (c # pre @ ''<h1>'' @ r) = None"
    by (rule h1_no_match)
  then have "sub_from h1_pattern repl pos (c # pre @ ''<h1>'' @ r)
               = c # sub_from h1_pattern repl pos (pre @ ''<h1>'' @ r)"
    by (intro sub_from_nomatch_same h1_indep)
  moreover have "\<not> occurs ''<h1>'' pre" using Cons.prems by (rule occurs_tail)
  ultimately show ?case using Cons.IH by simp
qed

lemma strip_h1_heading:
  assumes "\<not> occurs ''<h1>'' pre" "newline \<notin> set t" "\<not> occurs ''</h1>'' t"
  shows "strip_h1 (pre @ ''<h1>'' @ t @ ''</h1>'' @ post) = pre @ strip_h1 post"
proof -
  have "sub_from h1_pattern [] 0 (''<h1>'' @ t @ ''</h1>'' @ post)
          = [] @ sub_from h1_pattern [] 0 post"
    by (intro sub_from_match_same[where gs = "[t]"] h1_indep h1_match assms) simp
  then show ?thesis
    unfolding strip_h1_def re_sub_def pat_h1
    using strip_scan[OF assms(1), of "[]" 0 "t @ ''</h1>'' @ post"] by simp
qed

text \<open>
  The specification says that the transform removes the first top-level heading. It
  removes more and less: a second heading goes too, and a heading whose text has a line
  break stays.
\<close>

theorem readme_first_heading_counterexample:
  "readme_content (''<h1>A</h1>'' @ [newline] @ ''<p>x</p>'' @ [newline] @ ''<h1>B</h1>'')
     = [newline] @ ''<p>x</p>'' @ [newline]
   \<and> readme_content (''<h1>A'' @ [newline] @ ''B</h1>'' @ [newline] @ ''<p>x</p>'')
       = ''<h1>A'' @ [newline] @ ''B</h1>'' @ [newline] @ ''<p>x</p>''"
  by code_simp

text \<open>
  C8, amended. The transform works on the HTML that the Markdown library returns (the
  call, with the tables extension, is outside the model). It removes every top-level
  heading whose text has no line break, not only the first: a heading
  \<^verbatim>\<open><h1>t</h1>\<close> is removed when no \<^verbatim>\<open><h1>\<close> stands before it and \<open>t\<close> has
  neither a line break nor \<^verbatim>\<open></h1>\<close> in it, and what follows it is stripped of its
  headings in the same way. And it adds the class \<^verbatim>\<open>title\<close> to every \<^verbatim>\<open><h2>\<close>.
\<close>

theorem readme_headings:
  "(\<not> occurs ''<h1>'' pre \<longrightarrow> newline \<notin> set t \<longrightarrow> \<not> occurs ''</h1>'' t \<longrightarrow>
      readme_content (pre @ ''<h1>'' @ t @ ''</h1>'' @ post) = tag_h2 (pre @ strip_h1 post))
   \<and> tag_h2 (a @ ''<h2>'' @ b) = tag_h2 a @ h2_title @ tag_h2 b"
proof (intro conjI impI)
  assume "\<not> occurs ''<h1>'' pre" "newline \<notin> set t" "\<not> occurs ''</h1>'' t"
  then have "strip_h1 (pre @ ''<h1>'' @ t @ ''</h1>'' @ post) = pre @ strip_h1 post"
    by (rule strip_h1_heading)
  then show "readme_content (pre @ ''<h1>'' @ t @ ''</h1>'' @ post) = tag_h2 (pre @ strip_h1 post)"
    by (simp only: readme_content_def)
next
  show "tag_h2 (a @ ''<h2>'' @ b) = tag_h2 a @ h2_title @ tag_h2 b"
    by (rule tag_h2_split)
qed

theorem readme_headings_witness:
  "readme_content (''<p>intro</p>'' @ ''<h1>'' @ ''Course'' @ ''</h1>'' @ ''<h2>Mentors</h2>'')
     = ''<p>intro</p><h2 class='' @ [CHR 0x22] @ ''title'' @ [CHR 0x22] @ ''>Mentors</h2>''"
proof -
  have 1: "\<not> occurs ''<h1>'' ''<p>intro</p>''" "\<not> occurs ''</h1>'' ''Course''"
    by code_simp+
  have 2: "newline \<notin> set ''Course''" by (simp add: newline_def)
  have "strip_h1 ''<h2>Mentors</h2>'' = ''<h2>Mentors</h2>''" by code_simp
  moreover have "tag_h2 (''<p>intro</p>'' @ ''<h2>'' @ ''Mentors</h2>'')
      = tag_h2 ''<p>intro</p>'' @ h2_title @ tag_h2 ''Mentors</h2>''"
    using readme_headings by blast
  moreover have "tag_h2 ''<p>intro</p>'' = ''<p>intro</p>''" "tag_h2 ''Mentors</h2>'' = ''Mentors</h2>''"
    by code_simp+
  ultimately show ?thesis
    using readme_headings[of "''<p>intro</p>''" "''Course''" "''<h2>Mentors</h2>''"] 1 2
    by (simp add: h2_title_def)
qed

end
